theory Spec2Isabelle
  imports Main "HOL-Library.Word" "HOL-Library.Signed_Division"
begin

unbundle bit_operations_syntax

section \<open>ThreadFilter (threadFilter.cpp)\<close>

text \<open>
  A thread identifier is a C++ \<open>int\<close>. It is kept as its 32 bits, so that the cast
  \<open>(u32)thread_id\<close> is \<open>unat\<close> and \<open>thread_id & 0x1f\<close> is the bitwise AND.
\<close>

type_synonym tid = "32 word"
type_synonym u32 = "32 word"

text \<open>
  The header threadFilter.h is not among the sources. Its three constants are taken
  as parameters; no value is fixed for them.
\<close>

record layout =
  MAX_BITMAPS :: nat
  BITMAP_SIZE :: nat
  BITMAP_CAPACITY :: nat

text \<open>
  A chunk is the \<open>u32\<close> array that \<open>calloc(1, BITMAP_SIZE)\<close> returns: \<open>BITMAP_SIZE\<close>
  bytes, that is \<open>BITMAP_SIZE div 4\<close> whole words. A slot of \<open>_bitmap\<close> is \<open>None\<close> for
  the NULL pointer and \<open>Some chunk\<close> for an allocated chunk. Allocation is taken
  to succeed.
\<close>

type_synonym chunk = "u32 list"

record ThreadFilter =
  m_bitmap :: "chunk option list"
  m_enabled :: bool

definition calloc_chunk :: "layout \<Rightarrow> chunk" where
  "calloc_chunk L = replicate (BITMAP_SIZE L div 4) 0"

text \<open>The constructor: \<open>memset(_bitmap, 0, sizeof(_bitmap)); _enabled = false\<close>.\<close>

definition new_ThreadFilter :: "layout \<Rightarrow> ThreadFilter" where
  "new_ThreadFilter L = \<lparr>m_bitmap = replicate (MAX_BITMAPS L) None, m_enabled = False\<rparr>"

definition init :: "ThreadFilter \<Rightarrow> string option \<Rightarrow> ThreadFilter" where
  "init f flt = f\<lparr>m_enabled := (flt \<noteq> None)\<rparr>"

text \<open>
  Modelled from the spec: the accessor \<open>enabled()\<close> of the missing header
  threadFilter.h, which reads the flag \<open>enabled\<close> of the spec's data model.
\<close>

definition enabled :: "ThreadFilter \<Rightarrow> bool" where
  "enabled f = m_enabled f"

text \<open>The slot index \<open>(u32)thread_id / BITMAP_CAPACITY\<close> of line 57.\<close>

definition bitmap_index :: "layout \<Rightarrow> tid \<Rightarrow> nat" where
  "bitmap_index L thread_id = unat thread_id div BITMAP_CAPACITY L"

text \<open>
  Modelled from the spec: the private helper \<open>bitmap(thread_id)\<close> of the missing
  header threadFilter.h, which yields the chunk of an identifier. The spec maps an
  identifier to a (chunk index, word index, bit index) triple by integer division and
  shift; the chunk index is the one line 57 writes to. C++ does not check the index:
  an access outside the array, and a division by a zero capacity, are undefined
  behaviour, which is the result \<open>None\<close>.
\<close>

definition bitmap :: "layout \<Rightarrow> ThreadFilter \<Rightarrow> tid \<Rightarrow> chunk option option" where
  "bitmap L f thread_id =
     (if BITMAP_CAPACITY L = 0 then None
      else if bitmap_index L thread_id < MAX_BITMAPS L
              \<and> bitmap_index L thread_id < length (m_bitmap f)
      then Some (m_bitmap f ! bitmap_index L thread_id)
      else None)"

text \<open>
  Modelled from the spec: the word index of the triple, for the private helper
  \<open>word(bitmap, thread_id)\<close> of the missing header threadFilter.h. The bit index
  \<open>thread_id & 0x1f\<close> of threadFilter.cpp takes the low five bits, so the word index is
  the position inside the chunk shifted right by 5.
\<close>

definition word_index :: "layout \<Rightarrow> tid \<Rightarrow> nat" where
  "word_index L thread_id = drop_bit 5 (unat thread_id mod BITMAP_CAPACITY L)"

text \<open>
  Modelled from the spec: the private helper \<open>word(bitmap, thread_id)\<close> of the missing
  header threadFilter.h, the word of the chunk that holds the identifier's bit. An
  access outside the chunk is undefined behaviour, the result \<open>None\<close>.
\<close>

definition word :: "layout \<Rightarrow> chunk \<Rightarrow> tid \<Rightarrow> u32 option" where
  "word L b thread_id =
     (if word_index L thread_id < length b then Some (b ! word_index L thread_id) else None)"

text \<open>The mask \<open>1 << (thread_id & 0x1f)\<close>, converted to \<open>u32\<close> by the bitwise operator.\<close>

definition bit_mask :: "tid \<Rightarrow> u32" where
  "bit_mask thread_id = push_bit (unat (thread_id AND 0x1f)) 1"

text \<open>\<open>memset(_bitmap[i], 0, BITMAP_SIZE)\<close> on a chunk of \<open>BITMAP_SIZE\<close> bytes.\<close>

definition memset_zero :: "chunk \<Rightarrow> chunk" where
  "memset_zero b = map (\<lambda>_. 0) b"

definition clear_slot :: "nat \<Rightarrow> chunk option list \<Rightarrow> chunk option list" where
  "clear_slot i bm =
     (case bm ! i of None \<Rightarrow> bm | Some b \<Rightarrow> bm[i := Some (memset_zero b)])"

text \<open>\<open>clear\<close>: the loop \<open>for (int i = 0; i < MAX_BITMAPS; i++)\<close>.\<close>

definition clear :: "layout \<Rightarrow> ThreadFilter \<Rightarrow> ThreadFilter" where
  "clear L f = f\<lparr>m_bitmap := fold clear_slot [0 ..< MAX_BITMAPS L] (m_bitmap f)\<rparr>"

definition accept :: "layout \<Rightarrow> ThreadFilter \<Rightarrow> tid \<Rightarrow> bool option" where
  "accept L f thread_id =
     (case bitmap L f thread_id of
        None \<Rightarrow> None
      | Some None \<Rightarrow> Some False
      | Some (Some b) \<Rightarrow>
          (case word L b thread_id of
             None \<Rightarrow> None
           | Some w \<Rightarrow> Some (w AND bit_mask thread_id \<noteq> 0)))"

text \<open>
  \<open>add\<close>. The second look at the slot, under the lock, is kept as the source has it.
  The chunk is reached through the slot, so the atomic OR on its word is a write to
  the chunk the slot owns.
\<close>

definition add :: "layout \<Rightarrow> ThreadFilter \<Rightarrow> tid \<Rightarrow> ThreadFilter option" where
  "add L f thread_id =
     (case bitmap L f thread_id of
        None \<Rightarrow> None
      | Some b0 \<Rightarrow>
          (let (f1, b) =
             (case b0 of
                Some b \<Rightarrow> (f, b)
              | None \<Rightarrow>
                  (case bitmap L f thread_id of
                     Some (Some b) \<Rightarrow> (f, b)
                   | _ \<Rightarrow>
                       (f\<lparr>m_bitmap := (m_bitmap f)[bitmap_index L thread_id :=
                                         Some (calloc_chunk L)]\<rparr>,
                        calloc_chunk L)))
           in case word L b thread_id of
                None \<Rightarrow> None
              | Some w \<Rightarrow>
                  Some (f1\<lparr>m_bitmap := (m_bitmap f1)[bitmap_index L thread_id :=
                          Some (b[word_index L thread_id := w OR bit_mask thread_id])]\<rparr>)))"

definition remove :: "layout \<Rightarrow> ThreadFilter \<Rightarrow> tid \<Rightarrow> ThreadFilter option" where
  "remove L f thread_id =
     (case bitmap L f thread_id of
        None \<Rightarrow> None
      | Some None \<Rightarrow> Some f
      | Some (Some b) \<Rightarrow>
          (case word L b thread_id of
             None \<Rightarrow> None
           | Some w \<Rightarrow>
               Some (f\<lparr>m_bitmap := (m_bitmap f)[bitmap_index L thread_id :=
                       Some (b[word_index L thread_id := w AND NOT (bit_mask thread_id)])]\<rparr>)))"

text \<open>
  A history of a filter: the calls made on it since its construction, in order.
\<close>

datatype filter_op = Init "string option" | Add tid | Remove tid | Clear

fun apply_op :: "layout \<Rightarrow> ThreadFilter \<Rightarrow> filter_op \<Rightarrow> ThreadFilter option" where
  "apply_op L f (Init flt) = Some (init f flt)"
| "apply_op L f (Add t) = add L f t"
| "apply_op L f (Remove t) = remove L f t"
| "apply_op L f Clear = Some (clear L f)"

fun run_ops :: "layout \<Rightarrow> ThreadFilter \<Rightarrow> filter_op list \<Rightarrow> ThreadFilter option" where
  "run_ops L f [] = Some f"
| "run_ops L f (x # xs) =
     (case apply_op L f x of None \<Rightarrow> None | Some f' \<Rightarrow> run_ops L f' xs)"

text \<open>
  The constants fit together when a chunk has a word for each identifier of its range.
  The addressable range is \<open>[0, MAX_BITMAPS * BITMAP_CAPACITY)\<close>.
\<close>

definition layout_ok :: "layout \<Rightarrow> bool" where
  "layout_ok L \<longleftrightarrow> 0 < BITMAP_CAPACITY L \<and> BITMAP_CAPACITY L \<le> 32 * (BITMAP_SIZE L div 4)"

definition in_range :: "layout \<Rightarrow> tid \<Rightarrow> bool" where
  "in_range L t \<longleftrightarrow> unat t < MAX_BITMAPS L * BITMAP_CAPACITY L"

definition wf_filter :: "layout \<Rightarrow> ThreadFilter \<Rightarrow> bool" where
  "wf_filter L f \<longleftrightarrow>
     length (m_bitmap f) = MAX_BITMAPS L
     \<and> (\<forall>b. Some b \<in> set (m_bitmap f) \<longrightarrow> length b = BITMAP_SIZE L div 4)"

text \<open>
  The calls made since the last \<open>clear\<close>, or since construction when there was none.
\<close>

fun since_clear :: "filter_op list \<Rightarrow> filter_op list" where
  "since_clear [] = []"
| "since_clear (x # xs) =
     (if Clear \<in> set xs then since_clear xs else if x = Clear then xs else x # xs)"

text \<open>The bit of an identifier, read directly in its slot, and the chunk \<open>add\<close> writes.\<close>

definition slot_bit :: "layout \<Rightarrow> ThreadFilter \<Rightarrow> tid \<Rightarrow> bool" where
  "slot_bit L f t =
     (case m_bitmap f ! bitmap_index L t of
        None \<Rightarrow> False
      | Some b \<Rightarrow> bit (b ! word_index L t) (unat t mod 32))"

definition target :: "layout \<Rightarrow> ThreadFilter \<Rightarrow> tid \<Rightarrow> chunk" where
  "target L f t =
     (case m_bitmap f ! bitmap_index L t of None \<Rightarrow> calloc_chunk L | Some b \<Rightarrow> b)"

text \<open>A small layout for examples: two chunks of two words, 64 identifiers each.\<close>

definition example_layout :: layout where
  "example_layout = \<lparr>MAX_BITMAPS = 2, BITMAP_SIZE = 8, BITMAP_CAPACITY = 64\<rparr>"

section \<open>WallClock (wallClock.cpp)\<close>

definition THREADS_PER_TICK :: nat where
  "THREADS_PER_TICK = 8"

datatype signal = SIGVTALRM | SIGPROF | SIGIO

definition WAKEUP_SIGNAL :: signal where
  "WAKEUP_SIGNAL = SIGIO"

datatype handler = signalHandler | wakeupHandler

datatype Error = OK | Error string

text \<open>
  Modelled from the spec: the sentinel \<open>EVENT_WALL\<close> of the missing header
  arguments.h, which the spec gives as the event name "wall".
\<close>

definition EVENT_WALL :: string where
  "EVENT_WALL = ''wall''"

text \<open>The two fields of \<open>Arguments\<close> that \<open>start\<close> reads.\<close>

record Arguments =
  arg_interval :: int
  arg_event :: string

text \<open>
  The state \<open>start\<close> writes: the statics \<open>_interval\<close> and \<open>_sample_idle_threads\<close>,
  the fields \<open>_running\<close> and \<open>_thread\<close> (here: whether the thread exists), and the
  signal table of the process, which \<open>OS::installSignalHandler\<close> changes.
\<close>

record WallClock =
  m_interval :: int
  m_sample_idle_threads :: bool
  m_running :: bool
  m_thread :: bool
  handlers :: "signal \<Rightarrow> handler option"

text \<open>
  Modelled from the spec: \<open>OS::installSignalHandler\<close> of the missing header os.h,
  \<open>installSignalHandler(signalNumber, handler)\<close>.
\<close>

definition installSignalHandler :: "signal \<Rightarrow> handler \<Rightarrow> WallClock \<Rightarrow> WallClock" where
  "installSignalHandler sg h w = w\<lparr>handlers := (handlers w)(sg \<mapsto> h)\<rparr>"

text \<open>The calls \<open>start\<close> makes to the outside: installing a handler, and \<open>pthread_create\<close>
  with whether it succeeded.\<close>

datatype os_call = InstallSignalHandler signal handler | PthreadCreate bool

text \<open>
  \<open>start\<close>. \<open>DEFAULT_INTERVAL\<close> (wallClock.h, missing) is a parameter, and so is
  whether \<open>pthread_create\<close> returns 0 when it is called. \<open>strcmp(a, b) == 0\<close> is
  equality of strings. The result is the error, the state, and the calls made.
\<close>

definition start ::
  "int \<Rightarrow> bool \<Rightarrow> Arguments \<Rightarrow> WallClock \<Rightarrow> Error \<times> WallClock \<times> os_call list" where
  "start DEFAULT_INTERVAL pthread_create_ok args w =
     (if arg_interval args < 0 then (Error ''interval must be positive'', w, [])
      else
        (let w1 = w\<lparr>m_interval := (if arg_interval args \<noteq> 0 then arg_interval args
                                      else DEFAULT_INTERVAL)\<rparr>;
             w2 = w1\<lparr>m_sample_idle_threads := (arg_event args = EVENT_WALL)\<rparr>;
             w3 = installSignalHandler SIGVTALRM signalHandler w2;
             w4 = installSignalHandler SIGPROF signalHandler w3;
             w5 = installSignalHandler WAKEUP_SIGNAL wakeupHandler w4;
             w6 = w5\<lparr>m_running := True\<rparr>;
             calls = [InstallSignalHandler SIGVTALRM signalHandler,
                      InstallSignalHandler SIGPROF signalHandler,
                      InstallSignalHandler WAKEUP_SIGNAL wakeupHandler,
                      PthreadCreate pthread_create_ok]
         in if \<not> pthread_create_ok
            then (Error ''Unable to create timer thread'', w6, calls)
            else (OK, w6\<lparr>m_thread := True\<rparr>, calls)))"

text \<open>
  Modelled from the spec: the thread states of the missing header os.h,
  \<open>{RUNNING, SLEEPING, ...}\<close>; every state that is neither is \<open>THREAD_OTHER\<close>.
\<close>

datatype ThreadState = THREAD_RUNNING | THREAD_SLEEPING | THREAD_OTHER

text \<open>
  What the loop does to the outside, in order: a call of \<open>OS::listThreads\<close>, the
  identifier \<open>next()\<close> returned (\<open>-1\<close> at the end), \<open>delete thread_list\<close>, the state
  \<open>OS::threadState\<close> returned, a call of \<open>OS::sendSignalToThread\<close> with its result,
  and \<open>nanosleep\<close> with the seconds and nanoseconds asked for.
\<close>

datatype event =
    ListThreads
  | Next tid
  | Delete
  | State tid ThreadState
  | Signal tid signal bool
  | Sleep int int

text \<open>
  The outside answers. Every answer may depend on the moment of the call, a counter of
  the calls made so far, so that any sequence of answers is one such record.
  \<open>running_at\<close> is the value of \<open>_running\<close> the loop reads, which \<open>stop\<close> clears from
  another thread.
\<close>

record OS =
  threadId :: tid
  listThreads :: "nat \<Rightarrow> tid list"
  threadState :: "nat \<Rightarrow> tid \<Rightarrow> ThreadState"
  sendSignalToThread :: "nat \<Rightarrow> tid \<Rightarrow> signal \<Rightarrow> bool"
  running_at :: "nat \<Rightarrow> bool"

text \<open>The locals \<open>timerLoop\<close> sets before its loop, with the filter it consults.\<close>

record ctx =
  os :: OS
  lay :: layout
  self :: tid
  thread_filter :: ThreadFilter
  thread_filter_enabled :: bool
  sample_idle_threads :: bool
  timeout :: "int \<times> int"

type_synonym for_result = "tid list option \<times> nat \<times> nat \<times> event list"

definition emit :: "event list \<Rightarrow> for_result option \<Rightarrow> for_result option" where
  "emit evs r = map_option (\<lambda>(en, count, clk, evs'). (en, count, clk, evs @ evs')) r"

text \<open>
  Modelled from the spec: \<open>ThreadList::next\<close> of the missing header os.h. The
  enumerator is a snapshot of the live thread identifiers; \<open>next()\<close> yields the next
  one, or the end sentinel, which line 104 has as \<open>-1\<close>. The enumerator is kept as
  the identifiers it has left.
\<close>

definition next_thread :: "tid list \<Rightarrow> tid \<times> tid list" where
  "next_thread xs = (case xs of [] \<Rightarrow> (- 1, []) | x # rest \<Rightarrow> (x, rest))"

text \<open>
  The \<open>for\<close> loop of one tick, lines 102 to 120, on the enumerator \<open>thread_list\<close>.
  The result is the enumerator after the loop (\<open>None\<close> once deleted), the final
  \<open>count\<close>, the counter of calls, and the events of the loop; \<open>None\<close> when \<open>accept\<close>
  is undefined.
\<close>

function for_loop :: "ctx \<Rightarrow> nat \<Rightarrow> tid list \<Rightarrow> nat \<Rightarrow> for_result option" where
  "for_loop C count thread_list clk =
     (if \<not> count < THREADS_PER_TICK then Some (Some thread_list, count, clk, [])
      else
        (let (thread_id, rest) = next_thread thread_list in
         if thread_id = - 1 then Some (None, count, clk, [Next thread_id, Delete])
         else
           (case (if thread_id = self C then Some True
                  else if thread_filter_enabled C
                       then map_option Not (accept (lay C) (thread_filter C) thread_id)
                       else Some False) of
              None \<Rightarrow> None
            | Some True \<Rightarrow> emit [Next thread_id] (for_loop C count rest clk)
            | Some False \<Rightarrow>
                (let state = threadState (os C) clk thread_id in
                 if state = THREAD_RUNNING then
                   (let ok = sendSignalToThread (os C) (clk + 1) thread_id SIGPROF in
                    emit [Next thread_id, State thread_id state, Signal thread_id SIGPROF ok]
                      (for_loop C (if ok then count + 1 else count) rest (clk + 2)))
                 else if state = THREAD_SLEEPING \<and> sample_idle_threads C then
                   (let ok = sendSignalToThread (os C) (clk + 1) thread_id SIGVTALRM in
                    emit [Next thread_id, State thread_id state, Signal thread_id SIGVTALRM ok]
                      (for_loop C (if ok then count + 1 else count) rest (clk + 2)))
                 else
                   emit [Next thread_id, State thread_id state]
                     (for_loop C count rest (clk + 1))))))"
  by pat_completeness auto
termination
  by (relation "measure (\<lambda>(C, count, thread_list, clk). length thread_list)")
     (auto simp add: next_thread_def split: list.splits)

declare for_loop.simps [simp del]

record loop_state =
  thread_list :: "tid list option"
  clock :: nat
  trace :: "event list"

text \<open>One pass of the \<open>while\<close> body: lines 98 to 122.\<close>

definition tick :: "ctx \<Rightarrow> loop_state \<Rightarrow> loop_state option" where
  "tick C s =
     (let (xs, clk, evs0) =
        (case thread_list s of
           None \<Rightarrow> (listThreads (os C) (clock s), clock s + 1, [ListThreads])
         | Some xs \<Rightarrow> (xs, clock s, []))
      in case for_loop C 0 xs clk of
           None \<Rightarrow> None
         | Some (en, count, clk', evs) \<Rightarrow>
             Some \<lparr>thread_list = en, clock = clk' + 1,
                   trace = trace s @ evs0 @ evs @ [Sleep (fst (timeout C)) (snd (timeout C))]\<rparr>)"

text \<open>
  The \<open>while (_running)\<close> loop may run forever, so it runs on fuel: \<open>Returned\<close> when
  \<open>_running\<close> was read false (with the final \<open>delete thread_list\<close>), \<open>Still_running\<close>
  with the state reached when the fuel is used up, \<open>Undefined\<close> when a tick is.
\<close>

datatype outcome = Undefined | Returned loop_state | Still_running loop_state

fun while_loop :: "nat \<Rightarrow> ctx \<Rightarrow> loop_state \<Rightarrow> outcome" where
  "while_loop 0 C s = Still_running s"
| "while_loop (Suc fuel) C s =
     (if running_at (os C) (clock s) then
        (case tick C (s\<lparr>clock := clock s + 1\<rparr>) of
           None \<Rightarrow> Undefined
         | Some s' \<Rightarrow> while_loop fuel C s')
      else
        Returned (s\<lparr>thread_list := None, clock := clock s + 1,
                    trace := trace s @ (if thread_list s = None then [] else [Delete])\<rparr>))"

text \<open>
  \<open>timerLoop\<close>, for the filter \<open>f\<close> of the profiler and the state \<open>w\<close> that \<open>start\<close>
  left. \<open>loop_ctx\<close> is lines 86 to 93; C++ division and remainder truncate: \<open>sdiv\<close>
  and \<open>smod\<close>.
\<close>

definition loop_ctx :: "layout \<Rightarrow> OS \<Rightarrow> ThreadFilter \<Rightarrow> WallClock \<Rightarrow> ctx" where
  "loop_ctx L world f w =
     \<lparr>os = world, lay = L, self = threadId world, thread_filter = f,
      thread_filter_enabled = enabled f,
      sample_idle_threads = m_sample_idle_threads w,
      timeout = (m_interval w sdiv 1000000000, m_interval w smod 1000000000)\<rparr>"

definition timerLoop :: "nat \<Rightarrow> layout \<Rightarrow> OS \<Rightarrow> ThreadFilter \<Rightarrow> WallClock \<Rightarrow> outcome" where
  "timerLoop fuel L world f w =
     while_loop fuel (loop_ctx L world f w) \<lparr>thread_list = None, clock = 0, trace = []\<rparr>"

fun trace_of :: "outcome \<Rightarrow> event list option" where
  "trace_of Undefined = None"
| "trace_of (Returned s) = Some (trace s)"
| "trace_of (Still_running s) = Some (trace s)"


subsection \<open>Reading a trace\<close>

text \<open>The signals of a trace that were delivered, and the identifiers \<open>next()\<close> gave.\<close>

definition delivered :: "event list \<Rightarrow> nat" where
  "delivered evs = length (filter (\<lambda>e. case e of Signal t sg ok \<Rightarrow> ok | _ \<Rightarrow> False) evs)"

definition visited :: "event list \<Rightarrow> tid list" where
  "visited evs = concat (map (\<lambda>e. case e of Next t \<Rightarrow> [t] | _ \<Rightarrow> []) evs)"

fun is_State :: "event \<Rightarrow> bool" where
  "is_State (State t st) = True"
| "is_State e = False"

fun is_Signal :: "event \<Rightarrow> bool" where
  "is_Signal (Signal t sg ok) = True"
| "is_Signal e = False"

fun is_Sleep :: "event \<Rightarrow> bool" where
  "is_Sleep (Sleep a b) = True"
| "is_Sleep e = False"

text \<open>
  The routing the specification gives: the signal for a thread in a given state, if any.
\<close>

fun route :: "bool \<Rightarrow> ThreadState \<Rightarrow> signal option" where
  "route idle THREAD_RUNNING = Some SIGPROF"
| "route idle THREAD_SLEEPING = (if idle then Some SIGVTALRM else None)"
| "route idle THREAD_OTHER = None"

text \<open>A candidate passes when it is not the loop's own thread and the filter, if enabled, accepts it.\<close>

definition passes :: "ctx \<Rightarrow> tid \<Rightarrow> bool" where
  "passes C t \<longleftrightarrow>
     t \<noteq> self C
     \<and> (thread_filter_enabled C \<longrightarrow> accept (lay C) (thread_filter C) t = Some True)"

text \<open>
  What may follow what in a trace. After the end sentinel comes \<open>Delete\<close>. After a
  candidate that passes comes the reading of its state, and a state is read nowhere
  else. After a state with a route comes the attempt to deliver that signal to that
  thread, and a signal is sent nowhere else.
\<close>

definition follows :: "ctx \<Rightarrow> event \<Rightarrow> event \<Rightarrow> bool" where
  "follows C e1 e2 =
     (case e1 of
        Next t \<Rightarrow>
          if t = - 1 then e2 = Delete
          else if passes C t then (\<exists>st. e2 = State t st)
          else \<not> is_State e2 \<and> \<not> is_Signal e2
      | State t st \<Rightarrow>
          (case route (sample_idle_threads C) st of
             Some sg \<Rightarrow> (\<exists>ok. e2 = Signal t sg ok)
           | None \<Rightarrow> \<not> is_State e2 \<and> \<not> is_Signal e2)
      | _ \<Rightarrow> \<not> is_State e2 \<and> \<not> is_Signal e2)"

text \<open>The identifiers the enumerator holds when the \<open>for\<close> loop of a tick starts.\<close>

definition enumerated :: "ctx \<Rightarrow> loop_state \<Rightarrow> tid list" where
  "enumerated C s =
     (case thread_list s of None \<Rightarrow> listThreads (os C) (clock s) | Some xs \<Rightarrow> xs)"

text \<open>Values for examples: a state before \<open>start\<close>, and an outside with five threads.\<close>

definition example_clock :: WallClock where
  "example_clock = \<lparr>m_interval = 0, m_sample_idle_threads = False, m_running = False,
                     m_thread = False, handlers = (\<lambda>sg. None)\<rparr>"

definition example_os :: OS where
  "example_os =
     \<lparr>threadId = 1,
      listThreads = (\<lambda>n. [1, 2, 3, 4, 5]),
      threadState = (\<lambda>n t. if t = 2 \<or> t = 4 then THREAD_RUNNING
                             else if t = 3 then THREAD_SLEEPING else THREAD_OTHER),
      sendSignalToThread = (\<lambda>n t sg. t \<noteq> 4),
      running_at = (\<lambda>n. True)\<rparr>"

definition example_busy_os :: OS where
  "example_busy_os =
     \<lparr>threadId = 1,
      listThreads = (\<lambda>n. [2, 3, 4, 5, 6, 7, 8, 9, 10, 11, 12]),
      threadState = (\<lambda>n t. THREAD_RUNNING),
      sendSignalToThread = (\<lambda>n t sg. t \<noteq> 4),
      running_at = (\<lambda>n. True)\<rparr>"

text \<open>The state after a successful \<open>start\<close> for the event "cpu" with the default interval.\<close>

definition example_started :: WallClock where
  "example_started =
     fst (snd (start 10000000 True \<lparr>arg_interval = 0, arg_event = ''cpu''\<rparr> example_clock))"

text \<open>An enabled filter that holds thread 2 only.\<close>

definition example_filter :: ThreadFilter where
  "example_filter = \<lparr>m_bitmap = [Some [4, 0], None], m_enabled = True\<rparr>"

text \<open>
  The state after a successful \<open>start\<close> for the event "wall" with an interval of two
  and a half seconds.
\<close>

definition example_wall_started :: WallClock where
  "example_wall_started =
     fst (snd (start 10000000 True \<lparr>arg_interval = 2500000000, arg_event = ''wall''\<rparr>
                 example_clock))"

subsection \<open>The shape of a run\<close>

text \<open>
  The events of one tick, for a given \<open>timeout\<close>: they end with the only sleep, which
  asks for exactly that timeout; \<open>OS::listThreads\<close> is called at the start or not at
  all; and the end sentinel is met exactly when the tick's last events before the sleep
  are the sentinel and the deletion of the enumerator, when the enumerator is deleted
  at all, and when fewer than \<open>THREADS_PER_TICK\<close> signals were delivered.
\<close>

definition tick_shaped :: "int \<times> int \<Rightarrow> event list \<Rightarrow> bool" where
  "tick_shaped tmo b \<longleftrightarrow>
     b \<noteq> [] \<and> last b = Sleep (fst tmo) (snd tmo)
     \<and> filter is_Sleep (butlast b) = []
     \<and> filter (\<lambda>e. e = ListThreads) (tl b) = []
     \<and> (Next (- 1) \<in> set b) = (take 2 (rev (butlast b)) = [Delete, Next (- 1)])
     \<and> (Next (- 1) \<in> set b) = (Delete \<in> set b)
     \<and> (Next (- 1) \<in> set b) = (delivered b < THREADS_PER_TICK)
     \<and> delivered b \<le> THREADS_PER_TICK"

text \<open>
  The calls to the outside that a trace shows, each of which takes one moment: listing
  the threads, reading a state, sending a signal, sleeping. A reading of \<open>_running\<close>
  takes a moment too and shows in no event.
\<close>

definition outside_calls :: "event list \<Rightarrow> nat" where
  "outside_calls evs =
     length (filter (\<lambda>e. e = ListThreads \<or> is_State e \<or> is_Signal e \<or> is_Sleep e) evs)"

text \<open>
  Two ticks in a row: the second starts with a fresh enumeration exactly when the first
  met the end sentinel.
\<close>

definition fresh_after :: "event list \<Rightarrow> event list \<Rightarrow> bool" where
  "fresh_after b b' \<longleftrightarrow> (Next (- 1) \<in> set b) = (take 1 b' = [ListThreads])"

text \<open>
  Two ticks for examples, with a sleep of two and a half seconds: one that starts with a
  fresh enumeration of the threads 2 to 12 and stops on the budget, the delivery to
  thread 4 having failed, and the next one, which finds 11 and 12 left and then the end.
\<close>

definition example_budget_tick :: "event list" where
  "example_budget_tick =
     [ListThreads, Next 2, State 2 THREAD_RUNNING, Signal 2 SIGPROF True,
      Next 3, State 3 THREAD_RUNNING, Signal 3 SIGPROF True,
      Next 4, State 4 THREAD_RUNNING, Signal 4 SIGPROF False,
      Next 5, State 5 THREAD_RUNNING, Signal 5 SIGPROF True,
      Next 6, State 6 THREAD_RUNNING, Signal 6 SIGPROF True,
      Next 7, State 7 THREAD_RUNNING, Signal 7 SIGPROF True,
      Next 8, State 8 THREAD_RUNNING, Signal 8 SIGPROF True,
      Next 9, State 9 THREAD_RUNNING, Signal 9 SIGPROF True,
      Next 10, State 10 THREAD_RUNNING, Signal 10 SIGPROF True,
      Sleep 2 500000000]"

definition example_last_tick :: "event list" where
  "example_last_tick =
     [Next 11, State 11 THREAD_RUNNING, Signal 11 SIGPROF True,
      Next 12, State 12 THREAD_RUNNING, Signal 12 SIGPROF True,
      Next (- 1), Delete, Sleep 2 500000000]"

text \<open>
  The events of the \<open>for\<close> loop over the threads 1 to 5 of \<open>example_os\<close>, with idle
  threads sampled and without.
\<close>

definition example_wall_events :: "event list" where
  "example_wall_events =
     [Next 1, Next 2, State 2 THREAD_RUNNING, Signal 2 SIGPROF True,
      Next 3, State 3 THREAD_SLEEPING, Signal 3 SIGVTALRM True,
      Next 4, State 4 THREAD_RUNNING, Signal 4 SIGPROF False,
      Next 5, State 5 THREAD_OTHER, Next (- 1), Delete]"

definition example_cpu_events :: "event list" where
  "example_cpu_events =
     [Next 1, Next 2, State 2 THREAD_RUNNING, Signal 2 SIGPROF True,
      Next 3, State 3 THREAD_SLEEPING,
      Next 4, State 4 THREAD_RUNNING, Signal 4 SIGPROF False,
      Next 5, State 5 THREAD_OTHER, Next (- 1), Delete]"

text \<open>The busy outside, with \<open>_running\<close> cleared during the first tick.\<close>

definition example_stopping_os :: OS where
  "example_stopping_os = example_busy_os\<lparr>running_at := (\<lambda>n. n < 10)\<rparr>"


section \<open>Properties of ThreadFilter\<close>

subsection \<open>Bits and indices\<close>

text \<open>
  The test of \<open>accept\<close> reads one bit, \<open>add\<close> sets it and \<open>remove\<close> clears it;
  the chunk, the word and the bit of an identifier determine it.
\<close>

text \<open>
  The test of \<open>accept\<close> reads one bit, \<open>add\<close> sets it and \<open>remove\<close> clears it;
  the chunk, the word and the bit of an identifier determine it.
\<close>

lemma tid_low5: "unat ((t::tid) AND 0x1f) = unat t mod 32"
proof -
  have "(0x1f :: nat) = mask 5" by (simp add: mask_eq_exp_minus_1)
  then have "unat t AND 0x1f = take_bit 5 (unat t)" by (simp only: take_bit_eq_mask)
  then show ?thesis by (simp add: unsigned_and_eq take_bit_eq_mod)
qed

lemma bit_mask_test: "(w AND bit_mask t \<noteq> 0) = bit w (unat t mod 32)"
  by (simp add: bit_mask_def tid_low5 and_exp_eq_0_iff_not_bit)

lemma bit_or_mask: "bit (w OR bit_mask t) n = (bit w n \<or> n = unat t mod 32)"
  by (auto simp add: bit_mask_def tid_low5 bit_or_iff bit_exp_iff dest: bit_imp_le_length)

lemma bit_and_not_mask: "bit (w AND NOT (bit_mask t)) n = (bit w n \<and> n \<noteq> unat t mod 32)"
  by (auto simp add: bit_mask_def tid_low5 bit_and_iff bit_not_iff bit_exp_iff dest: bit_imp_le_length)

lemma near_cong:
  fixes a b :: nat
  assumes "a mod 32 = b mod 32" "a \<le> b" "b - a < 32"
  shows "a = b"
proof -
  have "32 dvd b - a" using assms(1,2) by (metis mod_eq_dvd_iff_nat)
  then have "b - a = 0" using assms(3) by (meson dvd_imp_le not_less zero_less_iff_neq_zero)
  then show ?thesis using assms(2) by simp
qed

lemma same_word_near:
  fixes r r' :: nat
  assumes "r div 32 = r' div 32"
  shows "r - r' < 32"
proof -
  have "r = 32 * (r div 32) + r mod 32" by simp
  moreover have "r' = 32 * (r div 32) + r' mod 32" using assms by (metis mult_div_mod_eq)
  moreover have "r mod 32 < 32" by simp
  ultimately show ?thesis by linarith
qed

lemma triple_inj:
  assumes "unat (t::tid) div c = unat (t'::tid) div c"
    and "drop_bit 5 (unat t mod c) = drop_bit 5 (unat t' mod c)"
    and "unat t mod 32 = unat t' mod 32"
  shows "t = t'"
proof -
  define a b where "a = unat t" and "b = unat t'"
  define k where "k = c * (a div c)"
  have "b div c = a div c" using assms(1) by (simp add: a_def b_def)
  then have "b = c * (a div c) + b mod c" by (metis mult_div_mod_eq)
  then have ab: "a = k + a mod c" "b = k + b mod c" by (simp_all add: k_def)
  have w: "(a mod c) div 32 = (b mod c) div 32"
    using assms(2) by (simp add: drop_bit_eq_div a_def b_def)
  have m: "a mod 32 = b mod 32" using assms(3) by (simp add: a_def b_def)
  have nr: "a mod c - b mod c < 32" "b mod c - a mod c < 32"
    using w by (simp_all add: same_word_near)
  have "a - b < 32" "b - a < 32" using ab nr by linarith+
  have "a = b"
  proof (cases "a \<le> b")
    case True
    then show ?thesis using m \<open>b - a < 32\<close> by (rule_tac near_cong)
  next
    case False
    then have "b \<le> a" by simp
    then have "b = a" using m \<open>a - b < 32\<close> by (rule_tac near_cong) simp_all
    then show ?thesis by simp
  qed
  then have "unat t = unat t'" by (simp only: a_def b_def)
  then show ?thesis by (rule word_unat_eq_iff [THEN iffD2])
qed

subsection \<open>Calls in the addressable range\<close>

lemma wf_new: "wf_filter L (new_ThreadFilter L)"
  by (simp add: wf_filter_def new_ThreadFilter_def)

lemma wf_init: "wf_filter L f \<Longrightarrow> wf_filter L (init f x)"
  by (simp add: wf_filter_def init_def)

lemma index_in_range:
  "in_range L t \<Longrightarrow> bitmap_index L t < MAX_BITMAPS L"
  by (simp add: in_range_def bitmap_index_def less_mult_imp_div_less)

lemma in_range_capacity: "in_range L t \<Longrightarrow> 0 < BITMAP_CAPACITY L"
  by (cases "BITMAP_CAPACITY L = 0") (simp_all add: in_range_def)

lemma word_index_bound:
  assumes "layout_ok L"
  shows "word_index L t < BITMAP_SIZE L div 4"
proof -
  have "unat t mod BITMAP_CAPACITY L < 32 * (BITMAP_SIZE L div 4)"
    using assms mod_less_divisor [of "BITMAP_CAPACITY L" "unat t"]
    unfolding layout_ok_def by linarith
  then show ?thesis
    by (simp add: word_index_def drop_bit_eq_div less_mult_imp_div_less mult.commute)
qed

lemma bitmap_in_range:
  "wf_filter L f \<Longrightarrow> in_range L t \<Longrightarrow>
   bitmap L f t = Some (m_bitmap f ! bitmap_index L t)"
  using index_in_range [of L t] in_range_capacity [of L t]
  by (simp add: bitmap_def wf_filter_def)

lemma slot_length:
  "wf_filter L f \<Longrightarrow> in_range L t \<Longrightarrow> m_bitmap f ! bitmap_index L t = Some b \<Longrightarrow>
   length b = BITMAP_SIZE L div 4"
  using index_in_range [of L t]
  by (metis nth_mem wf_filter_def)

lemma word_in_range:
  "layout_ok L \<Longrightarrow> length b = BITMAP_SIZE L div 4 \<Longrightarrow> word L b t = Some (b ! word_index L t)"
  using word_index_bound [of L t] by (simp add: word_def)

lemma accept_slot_bit:
  assumes "layout_ok L" "wf_filter L f" "in_range L t"
  shows "accept L f t = Some (slot_bit L f t)"
proof (cases "m_bitmap f ! bitmap_index L t")
  case None
  then show ?thesis using assms by (simp add: accept_def bitmap_in_range slot_bit_def)
next
  case (Some b)
  then have "length b = BITMAP_SIZE L div 4" using assms by (simp add: slot_length)
  then show ?thesis using assms Some
    by (simp add: accept_def bitmap_in_range slot_bit_def word_in_range bit_mask_test)
qed

lemma target_length:
  "wf_filter L f \<Longrightarrow> in_range L t \<Longrightarrow> length (target L f t) = BITMAP_SIZE L div 4"
  by (auto simp add: target_def calloc_chunk_def slot_length split: option.splits)

lemma add_in_range:
  assumes "layout_ok L" "wf_filter L f" "in_range L t"
  shows "add L f t = Some (f\<lparr>m_bitmap := (m_bitmap f)[bitmap_index L t :=
           Some ((target L f t)[word_index L t := target L f t ! word_index L t OR bit_mask t])]\<rparr>)"
proof (cases "m_bitmap f ! bitmap_index L t")
  case None
  then show ?thesis using assms
    by (simp add: add_def bitmap_in_range target_def word_in_range calloc_chunk_def)
next
  case (Some b)
  then have "length b = BITMAP_SIZE L div 4" using assms by (simp add: slot_length)
  then show ?thesis using assms Some
    by (simp add: add_def bitmap_in_range target_def word_in_range)
qed

lemma remove_in_range:
  assumes "layout_ok L" "wf_filter L f" "in_range L t"
  shows "remove L f t = Some (case m_bitmap f ! bitmap_index L t of None \<Rightarrow> f
           | Some b \<Rightarrow> f\<lparr>m_bitmap := (m_bitmap f)[bitmap_index L t :=
               Some (b[word_index L t := b ! word_index L t AND NOT (bit_mask t)])]\<rparr>)"
proof (cases "m_bitmap f ! bitmap_index L t")
  case None
  then show ?thesis using assms by (simp add: remove_def bitmap_in_range)
next
  case (Some b)
  then have "length b = BITMAP_SIZE L div 4" using assms by (simp add: slot_length)
  then show ?thesis using assms Some
    by (simp add: remove_def bitmap_in_range word_in_range)
qed

lemma add_total:
  "layout_ok L \<Longrightarrow> wf_filter L f \<Longrightarrow> in_range L t \<Longrightarrow> \<exists>f'. add L f t = Some f'"
  by (simp add: add_in_range)

lemma remove_total:
  "layout_ok L \<Longrightarrow> wf_filter L f \<Longrightarrow> in_range L t \<Longrightarrow> \<exists>f'. remove L f t = Some f'"
  by (simp add: remove_in_range)

lemma bitmap_Some_in_range:
  assumes "bitmap L f t = Some b"
  shows "in_range L t"
proof -
  have c: "0 < BITMAP_CAPACITY L" and i: "unat t div BITMAP_CAPACITY L < MAX_BITMAPS L"
    using assms by (auto simp add: bitmap_def bitmap_index_def split: if_splits)
  then show ?thesis by (simp add: in_range_def div_less_iff_less_mult)
qed

lemma add_Some_in_range: "add L f t = Some f' \<Longrightarrow> in_range L t"
  by (auto simp add: add_def split: option.splits dest: bitmap_Some_in_range)

lemma remove_Some_in_range: "remove L f t = Some f' \<Longrightarrow> in_range L t"
  by (auto simp add: remove_def split: option.splits dest: bitmap_Some_in_range)

lemma accept_out_of_range: "\<not> in_range L u \<Longrightarrow> accept L f u = None"
  using bitmap_Some_in_range [of L f u] by (cases "bitmap L f u") (auto simp add: accept_def)

subsection \<open>The shape of the bitmap is kept\<close>

lemma wf_update:
  assumes "wf_filter L f" "length b = BITMAP_SIZE L div 4"
  shows "wf_filter L (f\<lparr>m_bitmap := (m_bitmap f)[i := Some b]\<rparr>)"
proof -
  have "set ((m_bitmap f)[i := Some b]) \<subseteq> insert (Some b) (set (m_bitmap f))"
    by (rule set_update_subset_insert)
  then show ?thesis using assms by (auto simp add: wf_filter_def)
qed

lemma wf_add:
  assumes "layout_ok L" "wf_filter L f" "in_range L t" "add L f t = Some f'"
  shows "wf_filter L f'"
  using assms add_in_range [OF assms(1-3)] by (auto simp add: wf_update target_length)

lemma wf_remove:
  assumes "layout_ok L" "wf_filter L f" "in_range L t" "remove L f t = Some f'"
  shows "wf_filter L f'"
proof (cases "m_bitmap f ! bitmap_index L t")
  case None
  then show ?thesis using assms remove_in_range [OF assms(1-3)] by simp
next
  case (Some b)
  then have "length b = BITMAP_SIZE L div 4" using assms by (simp add: slot_length)
  then show ?thesis using assms Some remove_in_range [OF assms(1-3)]
    by (auto simp add: wf_update)
qed

lemma fold_clear_slot:
  "n \<le> length bm \<Longrightarrow>
   fold clear_slot [0 ..< n] bm = map (map_option memset_zero) (take n bm) @ drop n bm"
proof (induction n)
  case 0
  then show ?case by simp
next
  case (Suc n)
  then have n: "n < length bm" by simp
  let ?bm = "map (map_option memset_zero) (take n bm) @ drop n bm"
  have "?bm ! n = bm ! n" using n by (simp add: nth_append)
  moreover have "?bm[n := x] = map (map_option memset_zero) (take n bm) @ x # drop (Suc n) bm" for x
    using n by (simp add: list_update_append Cons_nth_drop_Suc [symmetric])
  moreover have "drop n bm = bm ! n # drop (Suc n) bm" using n by (simp add: Cons_nth_drop_Suc)
  ultimately show ?case using Suc n
    by (auto simp add: clear_slot_def take_Suc_conv_app_nth split: option.splits)
qed

lemma clear_map:
  "wf_filter L f \<Longrightarrow> clear L f = f\<lparr>m_bitmap := map (map_option memset_zero) (m_bitmap f)\<rparr>"
  by (simp add: clear_def wf_filter_def fold_clear_slot)

lemma wf_clear: "wf_filter L f \<Longrightarrow> wf_filter L (clear L f)"
proof -
  assume wf: "wf_filter L f"
  have "length b = BITMAP_SIZE L div 4"
    if "Some b \<in> set (map (map_option memset_zero) (m_bitmap f))" for b
  proof -
    from that obtain x where x: "x \<in> set (m_bitmap f)" "Some b = map_option memset_zero x"
      by auto
    from x(2) obtain b0 where "x = Some b0" "b = memset_zero b0" by (cases x) auto
    then show ?thesis using wf x by (simp add: wf_filter_def memset_zero_def)
  qed
  then show ?thesis using wf by (simp add: clear_map wf_filter_def)
qed

lemma wf_apply_op:
  assumes "layout_ok L" "wf_filter L f" "apply_op L f x = Some f'"
  shows "wf_filter L f'"
proof (cases x)
  case (Init flt)
  then show ?thesis using assms by (auto simp add: wf_init)
next
  case (Add t)
  then show ?thesis using assms by (auto intro: wf_add dest: add_Some_in_range)
next
  case (Remove t)
  then show ?thesis using assms by (auto intro: wf_remove dest: remove_Some_in_range)
next
  case Clear
  then show ?thesis using assms by (auto simp add: wf_clear)
qed

lemma wf_run_ops:
  "layout_ok L \<Longrightarrow> wf_filter L f \<Longrightarrow> run_ops L f ops = Some f' \<Longrightarrow> wf_filter L f'"
proof (induction ops arbitrary: f)
  case Nil
  then show ?case by simp
next
  case (Cons x xs)
  then show ?case by (auto split: option.splits dest: wf_apply_op)
qed

lemma wf_reachable:
  "layout_ok L \<Longrightarrow> run_ops L (new_ThreadFilter L) ops = Some f \<Longrightarrow> wf_filter L f"
  using wf_run_ops wf_new by blast

subsection \<open>The bit of an identifier after each call\<close>

lemma slot_bit_new: "in_range L t \<Longrightarrow> \<not> slot_bit L (new_ThreadFilter L) t"
  using index_in_range [of L t] by (simp add: slot_bit_def new_ThreadFilter_def)

lemma slot_bit_init: "slot_bit L (init f x) t = slot_bit L f t"
  by (simp add: slot_bit_def init_def)

lemma slot_bit_clear:
  assumes "layout_ok L" "wf_filter L f" "in_range L t"
  shows "\<not> slot_bit L (clear L f) t"
proof (cases "m_bitmap f ! bitmap_index L t")
  case None
  then show ?thesis using assms index_in_range [of L t]
    by (simp add: clear_map slot_bit_def wf_filter_def)
next
  case (Some b)
  then have "length b = BITMAP_SIZE L div 4" using assms by (simp add: slot_length)
  then have "memset_zero b ! word_index L t = 0"
    using word_index_bound [OF assms(1), of t] by (simp add: memset_zero_def)
  then show ?thesis using assms Some index_in_range [of L t]
    by (simp add: clear_map slot_bit_def wf_filter_def)
qed

lemma target_bit:
  assumes "layout_ok L" "wf_filter L f" "in_range L t" "bitmap_index L t' = bitmap_index L t"
  shows "bit (target L f t ! word_index L t') n = 
          (case m_bitmap f ! bitmap_index L t' of None \<Rightarrow> False | Some b \<Rightarrow> bit (b ! word_index L t') n)"
  using assms word_index_bound [OF assms(1), of t']
  by (simp add: target_def calloc_chunk_def split: option.splits)

lemma slot_bit_add:
  assumes "layout_ok L" "wf_filter L f" "in_range L t" "in_range L t'" "add L f t = Some f'"
  shows "slot_bit L f' t' = (t' = t \<or> slot_bit L f t')"
proof -
  let ?i = "bitmap_index L t" and ?j = "word_index L t" and ?c = "target L f t"
  have f': "m_bitmap f' = (m_bitmap f)[?i := Some (?c[?j := ?c ! ?j OR bit_mask t])]"
    using assms add_in_range [OF assms(1-3)] by auto
  have i: "?i < length (m_bitmap f)"
    using assms index_in_range [of L t] by (simp add: wf_filter_def)
  have j: "?j < length ?c"
    using assms word_index_bound [OF assms(1), of t] by (simp add: target_length)
  show ?thesis
  proof (cases "bitmap_index L t' = ?i")
    case False
    then have "t' \<noteq> t" by auto
    then show ?thesis using False by (simp add: slot_bit_def f')
  next
    case same_slot: True
    show ?thesis
    proof (cases "word_index L t' = ?j")
      case False
      then have "t' \<noteq> t" by auto
      then show ?thesis using False same_slot i target_bit [OF assms(1-3) same_slot]
        by (simp add: slot_bit_def f')
    next
      case same_word: True
      have "(unat t' mod 32 = unat t mod 32) = (t' = t)"
        using same_slot same_word triple_inj [of t' "BITMAP_CAPACITY L" t]
        by (auto simp add: bitmap_index_def word_index_def)
      then show ?thesis using same_slot same_word i j target_bit [OF assms(1-3) same_slot]
        by (auto simp add: slot_bit_def f' bit_or_mask)
    qed
  qed
qed

lemma slot_bit_remove:
  assumes "layout_ok L" "wf_filter L f" "in_range L t" "in_range L t'" "remove L f t = Some f'"
  shows "slot_bit L f' t' = (t' \<noteq> t \<and> slot_bit L f t')"
proof (cases "m_bitmap f ! bitmap_index L t")
  case None
  then have "f' = f" using assms remove_in_range [OF assms(1-3)] by simp
  moreover have "\<not> slot_bit L f t" using None by (simp add: slot_bit_def)
  ultimately show ?thesis by auto
next
  case (Some b)
  let ?i = "bitmap_index L t" and ?j = "word_index L t"
  have f': "m_bitmap f' = (m_bitmap f)[?i := Some (b[?j := b ! ?j AND NOT (bit_mask t)])]"
    using assms Some remove_in_range [OF assms(1-3)] by auto
  have i: "?i < length (m_bitmap f)"
    using assms index_in_range [of L t] by (simp add: wf_filter_def)
  have j: "?j < length b"
    using assms Some word_index_bound [OF assms(1), of t] by (simp add: slot_length)
  show ?thesis
  proof (cases "bitmap_index L t' = ?i")
    case False
    then have "t' \<noteq> t" by auto
    then show ?thesis using False by (simp add: slot_bit_def f')
  next
    case same_slot: True
    show ?thesis
    proof (cases "word_index L t' = ?j")
      case False
      then have "t' \<noteq> t" by auto
      then show ?thesis using False same_slot i Some
        by (simp add: slot_bit_def f')
    next
      case same_word: True
      have "(unat t' mod 32 = unat t mod 32) = (t' = t)"
        using same_slot same_word triple_inj [of t' "BITMAP_CAPACITY L" t]
        by (auto simp add: bitmap_index_def word_index_def)
      then show ?thesis using same_slot same_word i j Some
        by (auto simp add: slot_bit_def f' bit_and_not_mask)
    qed
  qed
qed

lemma slot_bit_apply_op:
  assumes "layout_ok L" "wf_filter L f" "in_range L t" "apply_op L f x = Some f'"
    and "x \<noteq> Add t" "\<not> slot_bit L f t"
  shows "\<not> slot_bit L f' t"
proof (cases x)
  case (Init flt)
  then show ?thesis using assms by (auto simp add: slot_bit_init)
next
  case (Add u)
  then have "in_range L u" "add L f u = Some f'" "t \<noteq> u"
    using assms by (auto dest: add_Some_in_range)
  then show ?thesis using assms slot_bit_add [of L f u t f'] by simp
next
  case (Remove u)
  then have "in_range L u" "remove L f u = Some f'"
    using assms by (auto dest: remove_Some_in_range)
  then show ?thesis using assms slot_bit_remove [of L f u t f'] by simp
next
  case Clear
  then show ?thesis using assms by (auto simp add: slot_bit_clear)
qed

lemma since_clear_id: "Clear \<notin> set xs \<Longrightarrow> since_clear xs = xs"
  by (induction xs) auto

lemma since_clear_subset: "set (since_clear xs) \<subseteq> set xs"
  by (induction xs) auto

lemma slot_bit_since_clear:
  assumes "layout_ok L" "in_range L t"
  shows "wf_filter L f \<Longrightarrow> run_ops L f ops = Some f' \<Longrightarrow>
         \<not> slot_bit L f t \<or> Clear \<in> set ops \<Longrightarrow>
         Add t \<notin> set (since_clear ops) \<Longrightarrow> \<not> slot_bit L f' t"
proof (induction ops arbitrary: f)
  case Nil
  then show ?case by simp
next
  case (Cons x xs)
  from Cons.prems(2) obtain f1 where f1: "apply_op L f x = Some f1" "run_ops L f1 xs = Some f'"
    by (auto split: option.splits)
  have wf1: "wf_filter L f1" using assms Cons.prems(1) f1(1) by (rule_tac wf_apply_op)
  show ?case
  proof (cases "Clear \<in> set xs")
    case True
    then show ?thesis using Cons.IH [OF wf1 f1(2)] Cons.prems(4) by simp
  next
    case no_clear: False
    then have sc: "since_clear xs = xs" by (rule since_clear_id)
    show ?thesis
    proof (cases "x = Clear")
      case True
      then have "\<not> slot_bit L f1 t" using assms Cons.prems(1) f1(1) by (auto simp add: slot_bit_clear)
      then show ?thesis using Cons.IH [OF wf1 f1(2)] Cons.prems(4) no_clear True sc by simp
    next
      case False
      then have "\<not> slot_bit L f t" "x \<noteq> Add t" using Cons.prems(3,4) no_clear by auto
      then have "\<not> slot_bit L f1 t" using assms Cons.prems(1) f1(1) slot_bit_apply_op by blast
      then show ?thesis using Cons.IH [OF wf1 f1(2)] Cons.prems(4) no_clear False sc by simp
    qed
  qed
qed

lemma slot_bit_not_added:
  assumes "layout_ok L" "in_range L t" "wf_filter L f" "\<not> slot_bit L f t"
    and "run_ops L f ops = Some f'" "Add t \<notin> set ops"
  shows "\<not> slot_bit L f' t"
  using assms(1-3,5) _ _
proof (rule slot_bit_since_clear)
  show "\<not> slot_bit L f t \<or> Clear \<in> set ops" using assms(4) by simp
  show "Add t \<notin> set (since_clear ops)" using assms(6) since_clear_subset by blast
qed

lemma slot_bit_stays:
  assumes "layout_ok L" "in_range L t"
  shows "wf_filter L f \<Longrightarrow> slot_bit L f t \<Longrightarrow> run_ops L f ops = Some f' \<Longrightarrow>
         Clear \<notin> set ops \<Longrightarrow> Remove t \<notin> set ops \<Longrightarrow> slot_bit L f' t"
proof (induction ops arbitrary: f)
  case Nil
  then show ?case by simp
next
  case (Cons x xs)
  from Cons.prems(3) obtain f1 where f1: "apply_op L f x = Some f1" "run_ops L f1 xs = Some f'"
    by (auto split: option.splits)
  have wf1: "wf_filter L f1" using assms(1) Cons.prems(1) f1(1) by (rule wf_apply_op)
  have "slot_bit L f1 t"
  proof (cases x)
    case (Init flt)
    then show ?thesis using f1(1) Cons.prems(2) by (auto simp add: slot_bit_init)
  next
    case (Add u)
    then have "in_range L u" "add L f u = Some f1" using f1(1) by (auto dest: add_Some_in_range)
    then show ?thesis
      using slot_bit_add [OF assms(1) Cons.prems(1) _ assms(2), of u f1] Cons.prems(2) by simp
  next
    case (Remove u)
    then have "in_range L u" "remove L f u = Some f1" "t \<noteq> u"
      using f1(1) Cons.prems(5) by (auto dest: remove_Some_in_range)
    then show ?thesis
      using slot_bit_remove [OF assms(1) Cons.prems(1) _ assms(2), of u f1] Cons.prems(2) by simp
  next
    case Clear
    then show ?thesis using Cons.prems(4) by simp
  qed
  then show ?case using Cons.IH [OF wf1 _ f1(2)] Cons.prems(4,5) by simp
qed

lemma only_added:
  assumes "layout_ok L" and "add L (init (new_ThreadFilter L) x) T = Some f" and "u \<noteq> T"
  shows "accept L f u \<noteq> Some True"
proof (cases "in_range L u")
  case False
  then show ?thesis by (simp add: accept_out_of_range)
next
  case True
  let ?f0 = "init (new_ThreadFilter L) x"
  have r: "in_range L T" using assms(2) by (rule add_Some_in_range)
  have wf0: "wf_filter L ?f0" by (simp add: wf_init wf_new)
  have wf: "wf_filter L f" using assms(1) wf0 r assms(2) by (rule wf_add)
  have "slot_bit L f u = (u = T \<or> slot_bit L ?f0 u)"
    using assms(1) wf0 r True assms(2) by (rule slot_bit_add)
  then have "\<not> slot_bit L f u" using assms(3) True by (simp add: slot_bit_init slot_bit_new)
  then show ?thesis using accept_slot_bit [OF assms(1) wf True] by simp
qed

lemma memset_zero_all: "\<forall>w \<in> set (memset_zero b). w = 0"
  by (simp add: memset_zero_def)

lemma add_twice:
  assumes "layout_ok L" "wf_filter L f" "in_range L t" "add L f t = Some f1"
  shows "add L f1 t = Some f1"
proof -
  let ?i = "bitmap_index L t" and ?j = "word_index L t" and ?c = "target L f t"
  let ?c1 = "?c[?j := ?c ! ?j OR bit_mask t]"
  have f1: "f1 = f\<lparr>m_bitmap := (m_bitmap f)[?i := Some ?c1]\<rparr>"
    using assms add_in_range [OF assms(1-3)] by auto
  have wf1: "wf_filter L f1" using assms by (rule wf_add)
  have i: "?i < length (m_bitmap f)"
    using assms index_in_range [of L t] by (simp add: wf_filter_def)
  have j: "?j < length ?c"
    using assms word_index_bound [OF assms(1), of t] by (simp add: target_length)
  have t1: "target L f1 t = ?c1" using i by (simp add: target_def f1)
  have "?c1[?j := ?c1 ! ?j OR bit_mask t] = ?c1" using j by simp
  then have "add L f1 t = Some (f1\<lparr>m_bitmap := (m_bitmap f1)[?i := Some ?c1]\<rparr>)"
    using add_in_range [OF assms(1) wf1 assms(3)] by (simp only: t1)
  moreover have "(m_bitmap f1)[?i := Some ?c1] = m_bitmap f1" by (simp add: f1)
  ultimately show ?thesis by simp
qed

subsection \<open>Membership, clearing and independence\<close>

text \<open>
  Claim C1. Take a filter reached from its construction by any calls, and an identifier
  \<open>t\<close> of the addressable range. After \<open>add t\<close>, and after any further calls among
  which there is neither \<open>clear\<close> nor \<open>remove t\<close>, \<open>accept t\<close> gives true; \<open>remove t\<close>
  then makes \<open>accept t\<close> false, and false it stays through any calls without \<open>add t\<close>.
  And \<open>accept t\<close> is false when \<open>add t\<close> was not called since the last \<open>clear\<close>, or
  since construction when there was no \<open>clear\<close>. None of these calls is undefined.
\<close>

theorem add_accept_remove_round_trip:
  assumes "layout_ok L" and "in_range L t"
    and "run_ops L (new_ThreadFilter L) ops = Some f"
  shows "(\<exists>f1. add L f t = Some f1
            \<and> (\<forall>ops' f2. run_ops L f1 ops' = Some f2 \<and> Clear \<notin> set ops' \<and> Remove t \<notin> set ops'
                  \<longrightarrow> accept L f2 t = Some True
                      \<and> (\<exists>f3. remove L f2 t = Some f3 \<and> accept L f3 t = Some False
                            \<and> (\<forall>ops'' f4. run_ops L f3 ops'' = Some f4 \<and> Add t \<notin> set ops''
                                  \<longrightarrow> accept L f4 t = Some False))))
       \<and> (Add t \<notin> set (since_clear ops) \<longrightarrow> accept L f t = Some False)"
proof -
  have wf: "wf_filter L f" using assms(1,3) by (rule wf_reachable)
  obtain f1 where f1: "add L f t = Some f1" using add_total [OF assms(1) wf assms(2)] by blast
  have wf1: "wf_filter L f1" using assms(1) wf assms(2) f1 by (rule wf_add)
  have b1: "slot_bit L f1 t" using slot_bit_add [OF assms(1) wf assms(2) assms(2) f1] by simp
  have later: "accept L f2 t = Some True
      \<and> (\<exists>f3. remove L f2 t = Some f3 \<and> accept L f3 t = Some False
            \<and> (\<forall>ops'' f4. run_ops L f3 ops'' = Some f4 \<and> Add t \<notin> set ops''
                  \<longrightarrow> accept L f4 t = Some False))"
    if run: "run_ops L f1 ops' = Some f2" and nc: "Clear \<notin> set ops'" and nr: "Remove t \<notin> set ops'"
    for ops' f2
  proof -
    have wf2: "wf_filter L f2" using assms(1) wf1 run by (rule wf_run_ops)
    have "slot_bit L f2 t" using assms(1,2) wf1 b1 run nc nr by (rule slot_bit_stays)
    then have a2: "accept L f2 t = Some True"
      using accept_slot_bit [OF assms(1) wf2 assms(2)] by simp
    obtain f3 where f3: "remove L f2 t = Some f3"
      using remove_total [OF assms(1) wf2 assms(2)] by blast
    have wf3: "wf_filter L f3" using assms(1) wf2 assms(2) f3 by (rule wf_remove)
    have b3: "\<not> slot_bit L f3 t"
      using slot_bit_remove [OF assms(1) wf2 assms(2) assms(2) f3] by simp
    then have a3: "accept L f3 t = Some False"
      using accept_slot_bit [OF assms(1) wf3 assms(2)] by simp
    have "accept L f4 t = Some False"
      if "run_ops L f3 ops'' = Some f4" "Add t \<notin> set ops''" for ops'' f4
    proof -
      have wf4: "wf_filter L f4" using assms(1) wf3 that(1) by (rule wf_run_ops)
      have "\<not> slot_bit L f4 t" using assms(1,2) wf3 b3 that by (rule slot_bit_not_added)
      then show ?thesis using accept_slot_bit [OF assms(1) wf4 assms(2)] by simp
    qed
    then show ?thesis using a2 f3 a3 by blast
  qed
  have "accept L f t = Some False" if "Add t \<notin> set (since_clear ops)"
  proof -
    have "\<not> slot_bit L f t"
      using assms(1,2) wf_new assms(3) _ that
      by (rule slot_bit_since_clear) (simp add: slot_bit_new assms(2))
    then show ?thesis using accept_slot_bit [OF assms(1) wf assms(2)] by simp
  qed
  then show ?thesis using f1 later by blast
qed

theorem add_accept_remove_round_trip_witness:
  "layout_ok example_layout \<and> in_range example_layout 37
   \<and> run_ops example_layout (new_ThreadFilter example_layout) [Add 37, Clear, Add 100]
       = Some \<lparr>m_bitmap = [Some [0, 0], Some [0, 16]], m_enabled = False\<rparr>
   \<and> add example_layout \<lparr>m_bitmap = [Some [0, 0], Some [0, 16]], m_enabled = False\<rparr> 37
       = Some \<lparr>m_bitmap = [Some [0, 32], Some [0, 16]], m_enabled = False\<rparr>
   \<and> run_ops example_layout \<lparr>m_bitmap = [Some [0, 32], Some [0, 16]], m_enabled = False\<rparr>
         [Add 38, Init None, Remove 5, Add 36]
       = Some \<lparr>m_bitmap = [Some [0, 112], Some [0, 16]], m_enabled = False\<rparr>
   \<and> Clear \<notin> set [Add 38, Init None, Remove 5, Add 36]
   \<and> Remove 37 \<notin> set [Add 38, Init None, Remove 5, Add 36]
   \<and> accept example_layout \<lparr>m_bitmap = [Some [0, 112], Some [0, 16]], m_enabled = False\<rparr> 37
       = Some True
   \<and> remove example_layout \<lparr>m_bitmap = [Some [0, 112], Some [0, 16]], m_enabled = False\<rparr> 37
       = Some \<lparr>m_bitmap = [Some [0, 80], Some [0, 16]], m_enabled = False\<rparr>
   \<and> accept example_layout \<lparr>m_bitmap = [Some [0, 80], Some [0, 16]], m_enabled = False\<rparr> 37
       = Some False
   \<and> run_ops example_layout \<lparr>m_bitmap = [Some [0, 80], Some [0, 16]], m_enabled = False\<rparr>
         [Add 5, Remove 37, Remove 38]
       = Some \<lparr>m_bitmap = [Some [32, 16], Some [0, 16]], m_enabled = False\<rparr>
   \<and> Add 37 \<notin> set [Add 5, Remove 37, Remove 38]
   \<and> accept example_layout \<lparr>m_bitmap = [Some [32, 16], Some [0, 16]], m_enabled = False\<rparr> 37
       = Some False
   \<and> Add 37 \<notin> set (since_clear [Add 37, Clear, Add 100])
   \<and> accept example_layout \<lparr>m_bitmap = [Some [0, 0], Some [0, 16]], m_enabled = False\<rparr> 37
       = Some False"
proof -
  let ?L = example_layout
  let ?f = "\<lparr>m_bitmap = [Some [0, 0], Some [0, 16]], m_enabled = False\<rparr>"
  let ?f1 = "\<lparr>m_bitmap = [Some [0, 32], Some [0, 16]], m_enabled = False\<rparr>"
  let ?f2 = "\<lparr>m_bitmap = [Some [0, 112], Some [0, 16]], m_enabled = False\<rparr>"
  let ?f3 = "\<lparr>m_bitmap = [Some [0, 80], Some [0, 16]], m_enabled = False\<rparr>"
  let ?f4 = "\<lparr>m_bitmap = [Some [32, 16], Some [0, 16]], m_enabled = False\<rparr>"
  let ?ops' = "[Add 38, Init None, Remove 5, Add 36]"
  let ?ops'' = "[Add 5, Remove 37, Remove 38]"
  have h1: "layout_ok ?L" by code_simp
  have h2: "in_range ?L 37" by code_simp
  have h3: "run_ops ?L (new_ThreadFilter ?L) [Add 37, Clear, Add 100] = Some ?f" by code_simp
  have h4: "Add 37 \<notin> set (since_clear [Add 37, Clear, Add 100])" by simp
  have r1: "add ?L ?f 37 = Some ?f1" by code_simp
  have r2: "run_ops ?L ?f1 ?ops' = Some ?f2" by code_simp
  have r3: "remove ?L ?f2 37 = Some ?f3" by code_simp
  have r4: "run_ops ?L ?f3 ?ops'' = Some ?f4" by code_simp
  have n1: "Clear \<notin> set ?ops'" "Remove 37 \<notin> set ?ops'" "Add 37 \<notin> set ?ops''" by simp_all
  note t = add_accept_remove_round_trip [OF h1 h2 h3]
  from t have c0: "accept ?L ?f 37 = Some False" using h4 by blast
  from t obtain g1 where g1: "add ?L ?f 37 = Some g1"
    and later: "\<forall>ops' f2. run_ops ?L g1 ops' = Some f2 \<and> Clear \<notin> set ops' \<and> Remove 37 \<notin> set ops'
        \<longrightarrow> accept ?L f2 37 = Some True
            \<and> (\<exists>f3. remove ?L f2 37 = Some f3 \<and> accept ?L f3 37 = Some False
                  \<and> (\<forall>ops'' f4. run_ops ?L f3 ops'' = Some f4 \<and> Add 37 \<notin> set ops''
                        \<longrightarrow> accept ?L f4 37 = Some False))"
    by blast
  have "g1 = ?f1" using g1 r1 by simp
  then have l: "accept ?L ?f2 37 = Some True
      \<and> (\<exists>f3. remove ?L ?f2 37 = Some f3 \<and> accept ?L f3 37 = Some False
            \<and> (\<forall>ops'' f4. run_ops ?L f3 ops'' = Some f4 \<and> Add 37 \<notin> set ops''
                  \<longrightarrow> accept ?L f4 37 = Some False))"
    using later r2 n1(1,2) by blast
  then have c2: "accept ?L ?f2 37 = Some True" by (rule conjunct1)
  from l obtain g3 where g3: "remove ?L ?f2 37 = Some g3" "accept ?L g3 37 = Some False"
    "\<forall>ops'' f4. run_ops ?L g3 ops'' = Some f4 \<and> Add 37 \<notin> set ops''
        \<longrightarrow> accept ?L f4 37 = Some False"
    by blast
  have e3: "g3 = ?f3" using g3(1) r3 by simp
  have c3: "accept ?L ?f3 37 = Some False" using g3(2) unfolding e3 .
  have c4: "accept ?L ?f4 37 = Some False" using g3(3) r4 n1(3) unfolding e3 by blast
  show ?thesis using h1 h2 h3 r1 r2 n1 c2 r3 c3 r4 c4 h4 c0 by (intro conjI)
qed

text \<open>
  Claim C2. On a filter reached from its construction by any calls, \<open>clear\<close> leaves
  \<open>accept t\<close> false for every identifier of the addressable range and every word of
  every allocated chunk zero; the enabled flag is as before; the slots are as many
  as before and each is allocated exactly if it was, so that a later \<open>add\<close> in the range
  of an allocated chunk finds the chunk and allocates nothing.
\<close>

theorem clear_zeroes_and_keeps_chunks:
  assumes "layout_ok L" and "run_ops L (new_ThreadFilter L) ops = Some f"
  shows "(\<forall>t. in_range L t \<longrightarrow> accept L (clear L f) t = Some False)
       \<and> (\<forall>b. Some b \<in> set (m_bitmap (clear L f)) \<longrightarrow> (\<forall>w \<in> set b. w = 0))
       \<and> enabled (clear L f) = enabled f
       \<and> length (m_bitmap (clear L f)) = length (m_bitmap f)
       \<and> (\<forall>i < length (m_bitmap f). (m_bitmap (clear L f) ! i = None) = (m_bitmap f ! i = None))
       \<and> (\<forall>t. in_range L t \<and> bitmap L f t \<noteq> Some None \<longrightarrow> bitmap L (clear L f) t \<noteq> Some None)"
proof -
  have wf: "wf_filter L f" using assms by (rule wf_reachable)
  have wfc: "wf_filter L (clear L f)" using wf by (rule wf_clear)
  have cm: "m_bitmap (clear L f) = map (map_option memset_zero) (m_bitmap f)"
    using wf by (simp add: clear_map)
  have 1: "accept L (clear L f) t = Some False" if "in_range L t" for t
    using accept_slot_bit [OF assms(1) wfc that] slot_bit_clear [OF assms(1) wf that] by simp
  have 2: "\<forall>w \<in> set b. w = 0" if "Some b \<in> set (m_bitmap (clear L f))" for b
  proof -
    from that obtain x where "Some b = map_option memset_zero x" unfolding cm by auto
    then obtain b0 where "b = memset_zero b0" by (cases x) auto
    then show ?thesis by (simp add: memset_zero_all)
  qed
  have 3: "enabled (clear L f) = enabled f" by (simp add: enabled_def clear_def)
  have 4: "length (m_bitmap (clear L f)) = length (m_bitmap f)" by (simp add: cm)
  have 5: "(m_bitmap (clear L f) ! i = None) = (m_bitmap f ! i = None)"
    if "i < length (m_bitmap f)" for i
    using that by (simp add: cm)
  have 6: "bitmap L (clear L f) t \<noteq> Some None"
    if "in_range L t \<and> bitmap L f t \<noteq> Some None" for t
  proof -
    from that have r: "in_range L t" and b: "bitmap L f t \<noteq> Some None" by simp_all
    have "bitmap_index L t < length (m_bitmap f)"
      using r wf index_in_range [of L t] by (simp add: wf_filter_def)
    moreover have "m_bitmap f ! bitmap_index L t \<noteq> None"
      using b by (simp add: bitmap_in_range [OF wf r])
    ultimately have "m_bitmap (clear L f) ! bitmap_index L t \<noteq> None"
      using 5 [of "bitmap_index L t"] by simp
    then show ?thesis by (simp add: bitmap_in_range [OF wfc r])
  qed
  show ?thesis using 1 2 3 4 5 6 by blast
qed

theorem clear_zeroes_and_keeps_chunks_witness:
  "layout_ok example_layout
   \<and> run_ops example_layout (new_ThreadFilter example_layout)
         [Init (Some ''main''), Add 37, Add 100]
       = Some \<lparr>m_bitmap = [Some [0, 32], Some [0, 16]], m_enabled = True\<rparr>
   \<and> in_range example_layout 37
   \<and> accept example_layout \<lparr>m_bitmap = [Some [0, 32], Some [0, 16]], m_enabled = True\<rparr> 37
       = Some True
   \<and> accept example_layout
         (clear example_layout \<lparr>m_bitmap = [Some [0, 32], Some [0, 16]], m_enabled = True\<rparr>) 37
       = Some False
   \<and> enabled (clear example_layout \<lparr>m_bitmap = [Some [0, 32], Some [0, 16]], m_enabled = True\<rparr>)
   \<and> m_bitmap (clear example_layout \<lparr>m_bitmap = [Some [0, 32], Some [0, 16]], m_enabled = True\<rparr>) ! 0
       \<noteq> None
   \<and> bitmap example_layout
         (clear example_layout \<lparr>m_bitmap = [Some [0, 32], Some [0, 16]], m_enabled = True\<rparr>) 37
       \<noteq> Some None"
proof -
  let ?f = "\<lparr>m_bitmap = [Some [0, 32], Some [0, 16]], m_enabled = True\<rparr>"
  have h1: "layout_ok example_layout" by code_simp
  have h2: "run_ops example_layout (new_ThreadFilter example_layout)
              [Init (Some ''main''), Add 37, Add 100] = Some ?f"
    by code_simp
  have h3: "in_range example_layout 37" by code_simp
  have h4: "accept example_layout ?f 37 = Some True" by code_simp
  have h5: "enabled ?f" by code_simp
  have h6: "bitmap example_layout ?f 37 \<noteq> Some None" by code_simp
  have h7: "(0::nat) < length (m_bitmap ?f)" "m_bitmap ?f ! 0 \<noteq> None" by simp_all
  note c = clear_zeroes_and_keeps_chunks [OF h1 h2]
  have c1: "accept example_layout (clear example_layout ?f) 37 = Some False"
    using c h3 by blast
  have c2: "enabled (clear example_layout ?f)" using c h5 by blast
  from c have c5: "\<forall>i < length (m_bitmap ?f).
      (m_bitmap (clear example_layout ?f) ! i = None) = (m_bitmap ?f ! i = None)"
    by blast
  have c3: "m_bitmap (clear example_layout ?f) ! 0 \<noteq> None"
    using c5 [rule_format, OF h7(1)] h7(2) by (simp only:) simp
  have c4: "bitmap example_layout (clear example_layout ?f) 37 \<noteq> Some None"
    using c h3 h6 by blast
  show ?thesis using h1 h2 h3 h4 c1 c2 c3 c4 by blast
qed

text \<open>
  Claim C10. On a filter reached from its construction by any calls, for two distinct
  identifiers \<open>t\<close> and \<open>t'\<close> of the addressable range, \<open>add t\<close> and \<open>remove t\<close> leave
  \<open>accept t'\<close> as it was, whether or not the two share a chunk or a word, and a second
  \<open>add t\<close> returns the filter unchanged.
\<close>

theorem add_remove_frame:
  assumes "layout_ok L" and "in_range L t" and "in_range L t'" and "t \<noteq> t'"
    and "run_ops L (new_ThreadFilter L) ops = Some f"
  shows "(\<exists>f1. add L f t = Some f1 \<and> accept L f1 t' = accept L f t' \<and> add L f1 t = Some f1)
       \<and> (\<exists>f2. remove L f t = Some f2 \<and> accept L f2 t' = accept L f t')"
proof -
  have wf: "wf_filter L f" using assms(1,5) by (rule wf_reachable)
  obtain f1 where f1: "add L f t = Some f1" using add_total [OF assms(1) wf assms(2)] by blast
  have wf1: "wf_filter L f1" using assms(1) wf assms(2) f1 by (rule wf_add)
  obtain f2 where f2: "remove L f t = Some f2"
    using remove_total [OF assms(1) wf assms(2)] by blast
  have wf2: "wf_filter L f2" using assms(1) wf assms(2) f2 by (rule wf_remove)
  have "slot_bit L f1 t' = slot_bit L f t'"
    using slot_bit_add [OF assms(1) wf assms(2,3) f1] assms(4) by simp
  then have a1: "accept L f1 t' = accept L f t'"
    by (simp add: accept_slot_bit [OF assms(1) _ assms(3)] wf wf1)
  have "slot_bit L f2 t' = slot_bit L f t'"
    using slot_bit_remove [OF assms(1) wf assms(2,3) f2] assms(4) by simp
  then have a2: "accept L f2 t' = accept L f t'"
    by (simp add: accept_slot_bit [OF assms(1) _ assms(3)] wf wf2)
  have "add L f1 t = Some f1" using assms(1) wf assms(2) f1 by (rule add_twice)
  then show ?thesis using f1 f2 a1 a2 by blast
qed

theorem add_remove_frame_witness:
  "layout_ok example_layout \<and> in_range example_layout 37 \<and> in_range example_layout 38
   \<and> (37 :: tid) \<noteq> 38
   \<and> word_index example_layout 37 = word_index example_layout 38
   \<and> bitmap_index example_layout 37 = bitmap_index example_layout 38
   \<and> run_ops example_layout (new_ThreadFilter example_layout) [Add 38, Add 100]
       = Some \<lparr>m_bitmap = [Some [0, 64], Some [0, 16]], m_enabled = False\<rparr>
   \<and> (\<exists>f1. add example_layout \<lparr>m_bitmap = [Some [0, 64], Some [0, 16]], m_enabled = False\<rparr> 37
              = Some f1
          \<and> accept example_layout f1 38 = Some True
          \<and> add example_layout f1 37 = Some f1)
   \<and> (\<exists>f2. remove example_layout \<lparr>m_bitmap = [Some [0, 64], Some [0, 16]], m_enabled = False\<rparr> 37
              = Some f2
          \<and> accept example_layout f2 38 = Some True)"
proof -
  let ?f = "\<lparr>m_bitmap = [Some [0, 64], Some [0, 16]], m_enabled = False\<rparr>"
  have h1: "layout_ok example_layout" by code_simp
  have h2: "in_range example_layout 37" by code_simp
  have h3: "in_range example_layout 38" by code_simp
  have h4: "(37 :: tid) \<noteq> 38" by simp
  have h5: "run_ops example_layout (new_ThreadFilter example_layout) [Add 38, Add 100] = Some ?f"
    by code_simp
  have h6: "word_index example_layout 37 = word_index example_layout 38" by code_simp
  have h7: "bitmap_index example_layout 37 = bitmap_index example_layout 38" by code_simp
  have h8: "accept example_layout ?f 38 = Some True" by code_simp
  show ?thesis
    using h1 h2 h3 h4 h5 h6 h7 add_remove_frame [OF h1 h2 h3 h4 h5] unfolding h8 by blast
qed

section \<open>Properties of WallClock\<close>

subsection \<open>start\<close>

text \<open>
  Claim C3. With a negative interval, \<open>start\<close> returns the error "interval must be
  positive", leaves the state as it was and makes no call to the outside: no handler is
  installed, no thread is created, the running flag is not set. With an interval that
  is not negative, that error is not returned, and the interval stored is the default
  when the configured one is zero and the configured one otherwise.
\<close>

theorem start_interval_check:
  "(arg_interval args < 0 \<longrightarrow>
      start DEFAULT_INTERVAL pthread_create_ok args w
        = (Error ''interval must be positive'', w, []))
   \<and> (0 \<le> arg_interval args \<longrightarrow>
        fst (start DEFAULT_INTERVAL pthread_create_ok args w) \<noteq> Error ''interval must be positive''
        \<and> m_interval (fst (snd (start DEFAULT_INTERVAL pthread_create_ok args w)))
            = (if arg_interval args = 0 then DEFAULT_INTERVAL else arg_interval args))"
  by (simp add: start_def Let_def installSignalHandler_def)

theorem start_interval_check_witness:
  "arg_interval \<lparr>arg_interval = - 1, arg_event = ''cpu''\<rparr> < 0
   \<and> start 10000000 True \<lparr>arg_interval = - 1, arg_event = ''cpu''\<rparr> example_clock
       = (Error ''interval must be positive'', example_clock, [])
   \<and> 0 \<le> arg_interval \<lparr>arg_interval = 0, arg_event = ''cpu''\<rparr>
   \<and> fst (start 10000000 True \<lparr>arg_interval = 0, arg_event = ''cpu''\<rparr> example_clock)
       \<noteq> Error ''interval must be positive''
   \<and> m_interval (fst (snd (start 10000000 True \<lparr>arg_interval = 0, arg_event = ''cpu''\<rparr>
                               example_clock)))
       = 10000000"
proof -
  let ?neg = "\<lparr>arg_interval = - 1, arg_event = ''cpu''\<rparr>"
  let ?zero = "\<lparr>arg_interval = 0, arg_event = ''cpu''\<rparr>"
  have h1: "arg_interval ?neg < 0" by simp
  have h2: "0 \<le> arg_interval ?zero" by simp
  have c1: "start 10000000 True ?neg example_clock
              = (Error ''interval must be positive'', example_clock, [])"
    using start_interval_check [of ?neg 10000000 True example_clock] h1 by blast
  have c2: "fst (start 10000000 True ?zero example_clock) \<noteq> Error ''interval must be positive''
            \<and> m_interval (fst (snd (start 10000000 True ?zero example_clock)))
                = (if arg_interval ?zero = 0 then 10000000 else arg_interval ?zero)"
    using start_interval_check [of ?zero 10000000 True example_clock] h2 by blast
  then have c3: "m_interval (fst (snd (start 10000000 True ?zero example_clock))) = 10000000"
    by simp
  show ?thesis using h1 h2 c1 c2 c3 by (intro conjI) simp_all
qed



subsection \<open>The for loop of a tick\<close>

lemma emit_Some:
  "(emit evs r = Some (en, c, k, es)) = (\<exists>es'. r = Some (en, c, k, es') \<and> es = evs @ es')"
  by (cases r) (auto simp add: emit_def)

lemma emit_None: "(emit evs r = None) = (r = None)"
  by (simp add: emit_def)

lemma delivered_simps [simp]:
  "delivered [] = 0"
  "delivered (Signal t sg ok # evs) = (if ok then Suc (delivered evs) else delivered evs)"
  "delivered (Next t # evs) = delivered evs"
  "delivered (State t st # evs) = delivered evs"
  "delivered (Delete # evs) = delivered evs"
  "delivered (ListThreads # evs) = delivered evs"
  "delivered (Sleep a b # evs) = delivered evs"
  "delivered (evs @ evs') = delivered evs + delivered evs'"
  by (simp_all add: delivered_def)

lemma visited_simps [simp]:
  "visited [] = []"
  "visited (Signal t sg ok # evs) = visited evs"
  "visited (Next t # evs) = t # visited evs"
  "visited (State t st # evs) = visited evs"
  "visited (Delete # evs) = visited evs"
  "visited (ListThreads # evs) = visited evs"
  "visited (Sleep a b # evs) = visited evs"
  "visited (evs @ evs') = visited evs @ visited evs'"
  by (simp_all add: visited_def)

lemma route_cases:
  "route idle st = (if st = THREAD_RUNNING then Some SIGPROF
                    else if st = THREAD_SLEEPING \<and> idle then Some SIGVTALRM else None)"
  by (cases st) simp_all

lemma for_loop_Nil:
  "for_loop C count [] clk =
     (if \<not> count < THREADS_PER_TICK then Some (Some [], count, clk, [])
      else Some (None, count, clk, [Next (- 1), Delete]))"
  by (subst for_loop.simps) (simp add: next_thread_def)

lemma for_loop_Cons:
  "for_loop C count (x # rest) clk =
     (if \<not> count < THREADS_PER_TICK then Some (Some (x # rest), count, clk, [])
      else if x = - 1 then Some (None, count, clk, [Next (- 1), Delete])
      else
        (case (if x = self C then Some True
               else if thread_filter_enabled C
                    then map_option Not (accept (lay C) (thread_filter C) x)
                    else Some False) of
           None \<Rightarrow> None
         | Some True \<Rightarrow> emit [Next x] (for_loop C count rest clk)
         | Some False \<Rightarrow>
             (let state = threadState (os C) clk x in
              if state = THREAD_RUNNING then
                (let ok = sendSignalToThread (os C) (clk + 1) x SIGPROF in
                 emit [Next x, State x state, Signal x SIGPROF ok]
                   (for_loop C (if ok then count + 1 else count) rest (clk + 2)))
              else if state = THREAD_SLEEPING \<and> sample_idle_threads C then
                (let ok = sendSignalToThread (os C) (clk + 1) x SIGVTALRM in
                 emit [Next x, State x state, Signal x SIGVTALRM ok]
                   (for_loop C (if ok then count + 1 else count) rest (clk + 2)))
              else
                emit [Next x, State x state]
                  (for_loop C count rest (clk + 1)))))"
  by (subst for_loop.simps) (simp add: next_thread_def)

text \<open>
  The loop is defined wherever the filter is: with the filter disabled, or with
  \<open>accept\<close> defined on the identifiers enumerated, a tick has a result.
\<close>

lemma for_loop_defined:
  "(thread_filter_enabled C \<Longrightarrow> \<forall>t \<in> set xs. accept (lay C) (thread_filter C) t \<noteq> None) \<Longrightarrow>
   for_loop C count xs clk \<noteq> None"
proof (induction xs arbitrary: count clk)
  case Nil
  then show ?case by (simp add: for_loop_Nil)
next
  case (Cons x rest)
  have r: "(for_loop C count' rest clk' = None) = False" for count' clk'
    using Cons.IH [of count' clk'] Cons.prems by simp
  have a: "(accept (lay C) (thread_filter C) x = None) = False" if "thread_filter_enabled C"
    using Cons.prems that by simp
  show ?case
  proof (cases "thread_filter_enabled C")
    case True
    then show ?thesis
      by (simp add: for_loop_Cons emit_None Let_def r a [OF True] del: not_None_eq
          split: option.splits bool.splits)
  next
    case False
    then show ?thesis
      by (simp add: for_loop_Cons emit_None Let_def r del: not_None_eq)
  qed
qed

lemma tick_defined:
  "(thread_filter_enabled C \<Longrightarrow>
      \<forall>t \<in> set (enumerated C s). accept (lay C) (thread_filter C) t \<noteq> None) \<Longrightarrow>
   tick C s \<noteq> None"
  using for_loop_defined [of C "enumerated C s"]
  by (cases "thread_list s")
     (auto simp add: tick_def enumerated_def split: option.splits prod.splits)

text \<open>
  Induction over a run of the loop: it stops on the budget, finishes on the end
  sentinel, skips a candidate, signals one, or reads a state that has no signal.
\<close>

lemma for_loop_induct [consumes 1, case_names stop finish skip signal quiet]:
  assumes "for_loop C count xs clk = Some (en, count', clk', evs)"
    and stop: "\<And>count xs clk. \<not> count < THREADS_PER_TICK \<Longrightarrow> P count xs clk (Some xs) count clk []"
    and finish: "\<And>count xs clk. count < THREADS_PER_TICK \<Longrightarrow> xs = [] \<or> hd xs = - 1 \<Longrightarrow>
           P count xs clk None count clk [Next (- 1), Delete]"
    and skip: "\<And>count x rest clk en count' clk' es.
           count < THREADS_PER_TICK \<Longrightarrow> x \<noteq> - 1 \<Longrightarrow> \<not> passes C x \<Longrightarrow>
           for_loop C count rest clk = Some (en, count', clk', es) \<Longrightarrow>
           P count rest clk en count' clk' es \<Longrightarrow>
           P count (x # rest) clk en count' clk' (Next x # es)"
    and signal: "\<And>count x rest clk en count' clk' es st sg ok.
           count < THREADS_PER_TICK \<Longrightarrow> x \<noteq> - 1 \<Longrightarrow> passes C x \<Longrightarrow>
           st = threadState (os C) clk x \<Longrightarrow> route (sample_idle_threads C) st = Some sg \<Longrightarrow>
           ok = sendSignalToThread (os C) (clk + 1) x sg \<Longrightarrow>
           for_loop C (if ok then count + 1 else count) rest (clk + 2) = Some (en, count', clk', es) \<Longrightarrow>
           P (if ok then count + 1 else count) rest (clk + 2) en count' clk' es \<Longrightarrow>
           P count (x # rest) clk en count' clk' (Next x # State x st # Signal x sg ok # es)"
    and quiet: "\<And>count x rest clk en count' clk' es st.
           count < THREADS_PER_TICK \<Longrightarrow> x \<noteq> - 1 \<Longrightarrow> passes C x \<Longrightarrow>
           st = threadState (os C) clk x \<Longrightarrow> route (sample_idle_threads C) st = None \<Longrightarrow>
           for_loop C count rest (clk + 1) = Some (en, count', clk', es) \<Longrightarrow>
           P count rest (clk + 1) en count' clk' es \<Longrightarrow>
           P count (x # rest) clk en count' clk' (Next x # State x st # es)"
  shows "P count xs clk en count' clk' evs"
  using assms(1)
proof (induction xs arbitrary: count clk en count' clk' evs)
  case Nil
  then show ?case using stop [of count "[]" clk] finish [of count "[]" clk]
    by (auto simp add: for_loop_Nil split: if_splits)
next
  case (Cons x rest)
  show ?case
  proof (cases "count < THREADS_PER_TICK")
    case False
    then show ?thesis using Cons.prems stop [of count "x # rest" clk]
      by (simp add: for_loop_Cons)
  next
    case budget: True
    show ?thesis
    proof (cases "x = - 1")
      case True
      then show ?thesis using Cons.prems budget finish [of count "x # rest" clk]
        by (simp add: for_loop_Cons)
    next
      case real: False
      define skipped where "skipped =
        (if x = self C then Some True
         else if thread_filter_enabled C
              then map_option Not (accept (lay C) (thread_filter C) x)
              else Some False)"
      have run: "(case skipped of
           None \<Rightarrow> None
         | Some True \<Rightarrow> emit [Next x] (for_loop C count rest clk)
         | Some False \<Rightarrow>
             (let state = threadState (os C) clk x in
              if state = THREAD_RUNNING then
                (let ok = sendSignalToThread (os C) (clk + 1) x SIGPROF in
                 emit [Next x, State x state, Signal x SIGPROF ok]
                   (for_loop C (if ok then count + 1 else count) rest (clk + 2)))
              else if state = THREAD_SLEEPING \<and> sample_idle_threads C then
                (let ok = sendSignalToThread (os C) (clk + 1) x SIGVTALRM in
                 emit [Next x, State x state, Signal x SIGVTALRM ok]
                   (for_loop C (if ok then count + 1 else count) rest (clk + 2)))
              else
                emit [Next x, State x state]
                  (for_loop C count rest (clk + 1)))) = Some (en, count', clk', evs)"
        using Cons.prems budget real by (simp add: skipped_def for_loop_Cons)
      then obtain sk where sk: "skipped = Some sk" by (cases skipped) auto
      show ?thesis
      proof (cases sk)
        case True
        then have np: "\<not> passes C x"
          using sk by (auto simp add: skipped_def passes_def split: if_splits)
        from run sk True obtain es where
          es: "for_loop C count rest clk = Some (en, count', clk', es)" "evs = Next x # es"
          by (auto simp add: emit_Some)
        show ?thesis unfolding es(2)
          using budget real np es(1) Cons.IH [OF es(1)] by (rule skip)
      next
        case False
        then have p: "passes C x"
          using sk by (auto simp add: skipped_def passes_def split: if_splits)
        define st where "st = threadState (os C) clk x"
        show ?thesis
        proof (cases "route (sample_idle_threads C) st")
          case None
          then have "st \<noteq> THREAD_RUNNING" "\<not> (st = THREAD_SLEEPING \<and> sample_idle_threads C)"
            by (auto simp add: route_cases split: if_splits)
          with run sk False obtain es where
            es: "for_loop C count rest (clk + 1) = Some (en, count', clk', es)"
              "evs = Next x # State x st # es"
            by (auto simp add: emit_Some st_def Let_def)
          show ?thesis unfolding es(2)
            using budget real p st_def None es(1) Cons.IH [OF es(1)] by (rule quiet)
        next
          case (Some sg)
          define ok where "ok = sendSignalToThread (os C) (clk + 1) x sg"
          have "emit [Next x, State x st, Signal x sg ok]
                  (for_loop C (if ok then count + 1 else count) rest (clk + 2))
                = Some (en, count', clk', evs)"
            using run sk False Some
            by (auto simp add: st_def ok_def Let_def route_cases split: if_splits)
          then obtain es where
            es: "for_loop C (if ok then count + 1 else count) rest (clk + 2)
                   = Some (en, count', clk', es)"
              "evs = Next x # State x st # Signal x sg ok # es"
            by (auto simp add: emit_Some)
          show ?thesis unfolding es(2)
            using budget real p st_def Some ok_def es(1) Cons.IH [OF es(1)] by (rule signal)
        qed
      qed
    qed
  qed
qed

lemma for_loop_count:
  "for_loop C count xs clk = Some (en, count', clk', evs) \<Longrightarrow> count' = count + delivered evs"
  by (induction rule: for_loop_induct) auto

lemma for_loop_budget:
  "for_loop C count xs clk = Some (en, count', clk', evs) \<Longrightarrow>
   count \<le> THREADS_PER_TICK \<Longrightarrow> count' \<le> THREADS_PER_TICK"
  by (induction rule: for_loop_induct) auto

lemma for_loop_retained:
  "for_loop C count xs clk = Some (en, count', clk', evs) \<Longrightarrow>
   count \<le> THREADS_PER_TICK \<Longrightarrow> en = Some rest' \<Longrightarrow>
   count' = THREADS_PER_TICK \<and> xs = visited evs @ rest'
   \<and> Next (- 1) \<notin> set evs \<and> Delete \<notin> set evs"
  by (induction rule: for_loop_induct) auto

lemma for_loop_deleted:
  "for_loop C count xs clk = Some (en, count', clk', evs) \<Longrightarrow> en = None \<Longrightarrow>
   (\<exists>evs'. evs = evs' @ [Next (- 1), Delete] \<and> Next (- 1) \<notin> set evs' \<and> Delete \<notin> set evs')
   \<and> count' < THREADS_PER_TICK"
proof (induction rule: for_loop_induct)
  case (skip count x rest clk en count' clk' es)
  then obtain evs' where "es = evs' @ [Next (- 1), Delete]" "Next (- 1) \<notin> set evs'"
    "Delete \<notin> set evs'" "count' < THREADS_PER_TICK" by auto
  then show ?case using skip.hyps by (auto intro!: exI [of _ "Next x # evs'"])
next
  case (signal count x rest clk en count' clk' es st sg ok)
  then obtain evs' where "es = evs' @ [Next (- 1), Delete]" "Next (- 1) \<notin> set evs'"
    "Delete \<notin> set evs'" "count' < THREADS_PER_TICK" by auto
  then show ?case using signal.hyps
    by (auto intro!: exI [of _ "Next x # State x st # Signal x sg ok # evs'"])
next
  case (quiet count x rest clk en count' clk' es st)
  then obtain evs' where "es = evs' @ [Next (- 1), Delete]" "Next (- 1) \<notin> set evs'"
    "Delete \<notin> set evs'" "count' < THREADS_PER_TICK" by auto
  then show ?case using quiet.hyps
    by (auto intro!: exI [of _ "Next x # State x st # evs'"])
qed auto

lemma for_loop_prefix:
  "for_loop C count xs clk = Some (en, count', clk', evs) \<Longrightarrow> en = None \<Longrightarrow>
   \<exists>rest'. xs = filter (\<lambda>t. t \<noteq> - 1) (visited evs) @ rest' \<and> (rest' = [] \<or> hd rest' = - 1)"
  by (induction rule: for_loop_induct) auto

lemma for_loop_calls:
  "for_loop C count xs clk = Some (en, count', clk', evs) \<Longrightarrow> e \<in> set evs \<Longrightarrow>
   \<not> is_Sleep e \<and> e \<noteq> ListThreads"
  by (induction rule: for_loop_induct) auto

lemma for_loop_head:
  "for_loop C count xs clk = Some (en, count', clk', evs) \<Longrightarrow>
   evs = [] \<or> (\<exists>t es. evs = Next t # es)"
  by (induction rule: for_loop_induct) auto

lemma for_loop_signals:
  "for_loop C count xs clk = Some (en, count', clk', evs) \<Longrightarrow> Signal t sg ok \<in> set evs \<Longrightarrow>
   passes C t"
  by (induction rule: for_loop_induct) auto

lemma for_loop_progress:
  "for_loop C count xs clk = Some (en, count', clk', evs) \<Longrightarrow>
   (evs = []) = (\<not> count < THREADS_PER_TICK)"
  by (induction rule: for_loop_induct) auto

lemma for_loop_kept:
  "for_loop C count xs clk = Some (en, count', clk', evs) \<Longrightarrow>
   (en \<noteq> None) = (\<not> count' < THREADS_PER_TICK)"
  by (induction rule: for_loop_induct) auto

lemma for_loop_kept_all:
  "for_loop C count xs clk = Some (en, count', clk', evs) \<Longrightarrow> en = Some rest' \<Longrightarrow>
   xs = visited evs @ rest'"
  by (induction rule: for_loop_induct) auto

lemma for_loop_exhausted:
  "for_loop C count xs clk = Some (en, count', clk', evs) \<Longrightarrow> en = None \<Longrightarrow>
   \<exists>vs rest'. visited evs = vs @ [- 1] \<and> - 1 \<notin> set vs \<and> xs = vs @ rest'
      \<and> (rest' = [] \<or> hd rest' = - 1)"
proof (induction rule: for_loop_induct)
  case (stop count xs clk)
  then show ?case by simp
next
  case (finish count xs clk)
  then show ?case by (auto intro!: exI [of _ "[]"])
next
  case (skip count x rest clk en count' clk' es)
  then obtain vs rest' where "visited es = vs @ [- 1]" "- 1 \<notin> set vs" "rest = vs @ rest'"
    "rest' = [] \<or> hd rest' = - 1" by auto
  then show ?case using skip.hyps(2) by (auto intro!: exI [of _ "x # vs"])
next
  case (signal count x rest clk en count' clk' es st sg ok)
  then obtain vs rest' where "visited es = vs @ [- 1]" "- 1 \<notin> set vs" "rest = vs @ rest'"
    "rest' = [] \<or> hd rest' = - 1" by auto
  then show ?case using signal.hyps(2) by (auto intro!: exI [of _ "x # vs"])
next
  case (quiet count x rest clk en count' clk' es st)
  then obtain vs rest' where "visited es = vs @ [- 1]" "- 1 \<notin> set vs" "rest = vs @ rest'"
    "rest' = [] \<or> hd rest' = - 1" by auto
  then show ?case using quiet.hyps(2) by (auto intro!: exI [of _ "x # vs"])
qed

lemma outside_calls_simps [simp]:
  "outside_calls [] = 0"
  "outside_calls (Signal t sg ok # evs) = Suc (outside_calls evs)"
  "outside_calls (Next t # evs) = outside_calls evs"
  "outside_calls (State t st # evs) = Suc (outside_calls evs)"
  "outside_calls (Delete # evs) = outside_calls evs"
  "outside_calls (ListThreads # evs) = Suc (outside_calls evs)"
  "outside_calls (Sleep a b # evs) = Suc (outside_calls evs)"
  "outside_calls (evs @ evs') = outside_calls evs + outside_calls evs'"
  by (simp_all add: outside_calls_def)

lemma for_loop_clock:
  "for_loop C count xs clk = Some (en, count', clk', evs) \<Longrightarrow> clk' = clk + outside_calls evs"
  by (induction rule: for_loop_induct) auto

lemma for_loop_states_at:
  "for_loop C count xs clk = Some (en, count', clk', evs) \<Longrightarrow>
   evs = pre @ State t st # post \<Longrightarrow> st = threadState (os C) (clk + outside_calls pre) t"
proof (induction arbitrary: pre rule: for_loop_induct)
  case (stop count xs clk)
  then show ?case by simp
next
  case (finish count xs clk)
  then show ?case by (auto simp add: Cons_eq_append_conv)
next
  case (skip count x rest clk en count' clk' es)
  then show ?case by (auto simp add: Cons_eq_append_conv)
next
  case (signal count x rest clk en count' clk' es st' sg ok)
  then show ?case by (auto simp add: Cons_eq_append_conv)
next
  case (quiet count x rest clk en count' clk' es st')
  then show ?case by (auto simp add: Cons_eq_append_conv)
qed

lemma for_loop_answers_at:
  "for_loop C count xs clk = Some (en, count', clk', evs) \<Longrightarrow>
   evs = pre @ Signal t sg ok # post \<Longrightarrow>
   ok = sendSignalToThread (os C) (clk + outside_calls pre) t sg"
proof (induction arbitrary: pre rule: for_loop_induct)
  case (stop count xs clk)
  then show ?case by simp
next
  case (finish count xs clk)
  then show ?case by (auto simp add: Cons_eq_append_conv)
next
  case (skip count x rest clk en count' clk' es)
  then show ?case by (auto simp add: Cons_eq_append_conv)
next
  case (signal count x rest clk en count' clk' es st' sg' ok')
  then show ?case by (auto simp add: Cons_eq_append_conv)
next
  case (quiet count x rest clk en count' clk' es st')
  then show ?case by (auto simp add: Cons_eq_append_conv)
qed

lemma follows_simps:
  "follows C (Next t) e =
     (if t = - 1 then e = Delete else if passes C t then (\<exists>st. e = State t st)
      else \<not> is_State e \<and> \<not> is_Signal e)"
  "follows C (State t st) e =
     (case route (sample_idle_threads C) st of
        Some sg \<Rightarrow> (\<exists>ok. e = Signal t sg ok)
      | None \<Rightarrow> \<not> is_State e \<and> \<not> is_Signal e)"
  "follows C (Signal t sg ok) e = (\<not> is_State e \<and> \<not> is_Signal e)"
  "follows C Delete e = (\<not> is_State e \<and> \<not> is_Signal e)"
  "follows C ListThreads e = (\<not> is_State e \<and> \<not> is_Signal e)"
  "follows C (Sleep a b) e = (\<not> is_State e \<and> \<not> is_Signal e)"
  by (simp_all add: follows_def)

lemma for_loop_follows:
  "for_loop C count xs clk = Some (en, count', clk', evs) \<Longrightarrow>
   \<not> is_State e \<Longrightarrow> \<not> is_Signal e \<Longrightarrow> successively (follows C) (evs @ [e])"
proof (induction rule: for_loop_induct)
  case (skip count x rest clk en count' clk' es)
  then show ?case using for_loop_head [OF skip.hyps(4)]
    by (auto simp add: follows_simps successively_Cons)
next
  case (signal count x rest clk en count' clk' es st sg ok)
  then show ?case using for_loop_head [OF signal.hyps(7)]
    by (auto simp add: follows_simps successively_Cons)
next
  case (quiet count x rest clk en count' clk' es st)
  then show ?case using for_loop_head [OF quiet.hyps(6)]
    by (auto simp add: follows_simps successively_Cons)
qed (auto simp add: follows_simps)

text \<open>
  Claim C8. The \<open>for\<close> loop of a tick, whatever the count, the identifiers and the
  moment it starts with. It has a result wherever \<open>accept\<close> is defined. While budget is
  left it draws candidates, in the order of the enumerator and without passing over
  any, up to the end sentinel. A candidate that passes the self and filter checks has
  its state read, as the outside gives it; a thread seen \<open>THREAD_RUNNING\<close> is sent
  \<open>SIGPROF\<close>, one seen \<open>THREAD_SLEEPING\<close> is sent \<open>SIGVTALRM\<close> when idle threads are
  sampled, and after any other reading no signal comes; no signal is sent anywhere
  else. Each state and each answer to a signal is the one the outside gives at that
  moment, the moment being counted by the calls to the outside made before. The
  count grows by the delivered signals only, and the loop keeps its enumerator
  exactly when the count has reached \<open>THREADS_PER_TICK\<close>.
\<close>

theorem for_loop_routing:
  "((thread_filter_enabled C \<longrightarrow> (\<forall>t \<in> set xs. accept (lay C) (thread_filter C) t \<noteq> None))
      \<longrightarrow> for_loop C count xs clk \<noteq> None)
   \<and> (\<forall>en count' clk' evs.
         for_loop C count xs clk = Some (en, count', clk', evs) \<longrightarrow>
           successively (follows C) (evs @ [Sleep a b])
           \<and> count' = count + delivered evs
           \<and> (evs = []) = (\<not> count < THREADS_PER_TICK)
           \<and> (evs = [] \<or> (\<exists>t es. evs = Next t # es))
           \<and> (en \<noteq> None) = (\<not> count' < THREADS_PER_TICK)
           \<and> (\<forall>rest. en = Some rest \<longrightarrow> xs = visited evs @ rest)
           \<and> (en = None \<longrightarrow>
                (\<exists>vs rest. visited evs = vs @ [- 1] \<and> - 1 \<notin> set vs \<and> xs = vs @ rest
                   \<and> (rest = [] \<or> hd rest = - 1)))
           \<and> clk' = clk + outside_calls evs
           \<and> (\<forall>pre t st post. evs = pre @ State t st # post \<longrightarrow>
                 st = threadState (os C) (clk + outside_calls pre) t)
           \<and> (\<forall>pre t sg ok post. evs = pre @ Signal t sg ok # post \<longrightarrow>
                 ok = sendSignalToThread (os C) (clk + outside_calls pre) t sg))"
proof (intro conjI allI impI)
  assume "thread_filter_enabled C \<longrightarrow> (\<forall>t \<in> set xs. accept (lay C) (thread_filter C) t \<noteq> None)"
  then show "for_loop C count xs clk \<noteq> None" by (intro for_loop_defined) simp
next
  fix en count' clk' evs
  assume run: "for_loop C count xs clk = Some (en, count', clk', evs)"
  show "successively (follows C) (evs @ [Sleep a b])"
    using for_loop_follows [OF run, of "Sleep a b"] by simp
  show "count' = count + delivered evs" using run by (rule for_loop_count)
  show "(evs = []) = (\<not> count < THREADS_PER_TICK)" using run by (rule for_loop_progress)
  show "evs = [] \<or> (\<exists>t es. evs = Next t # es)" using run by (rule for_loop_head)
  show "(en \<noteq> None) = (\<not> count' < THREADS_PER_TICK)" using run by (rule for_loop_kept)
  show "xs = visited evs @ rest" if "en = Some rest" for rest
    using run that by (rule for_loop_kept_all)
  show "\<exists>vs rest. visited evs = vs @ [- 1] \<and> - 1 \<notin> set vs \<and> xs = vs @ rest
          \<and> (rest = [] \<or> hd rest = - 1)" if "en = None"
    using run that by (rule for_loop_exhausted)
  show "clk' = clk + outside_calls evs" using run by (rule for_loop_clock)
  show "st = threadState (os C) (clk + outside_calls pre) t"
    if "evs = pre @ State t st # post" for pre t st post
    using run that by (rule for_loop_states_at)
  show "ok = sendSignalToThread (os C) (clk + outside_calls pre) t sg"
    if "evs = pre @ Signal t sg ok # post" for pre t sg ok post
    using run that by (rule for_loop_answers_at)
qed

theorem for_loop_routing_witness:
  "\<not> thread_filter_enabled
        (loop_ctx example_layout example_os (new_ThreadFilter example_layout) example_wall_started)
   \<and> sample_idle_threads
        (loop_ctx example_layout example_os (new_ThreadFilter example_layout) example_wall_started)
   \<and> for_loop
        (loop_ctx example_layout example_os (new_ThreadFilter example_layout) example_wall_started)
        0 [1, 2, 3, 4, 5] 1
     = Some (None, 2, 8, example_wall_events)
   \<and> State 3 THREAD_SLEEPING \<in> set example_wall_events
   \<and> Signal 3 SIGVTALRM True \<in> set example_wall_events
   \<and> successively
        (follows (loop_ctx example_layout example_os (new_ThreadFilter example_layout)
                    example_wall_started))
        (example_wall_events @ [Sleep 2 500000000])
   \<and> (2 :: nat) = 0 + delivered example_wall_events
   \<and> example_wall_events \<noteq> []
   \<and> (\<exists>vs rest. visited example_wall_events = vs @ [- 1] \<and> [1, 2, 3, 4, 5] = vs @ rest)
   \<and> \<not> sample_idle_threads
        (loop_ctx example_layout example_os (new_ThreadFilter example_layout) example_started)
   \<and> for_loop
        (loop_ctx example_layout example_os (new_ThreadFilter example_layout) example_started)
        0 [1, 2, 3, 4, 5] 1
     = Some (None, 1, 7, example_cpu_events)
   \<and> successively
        (follows (loop_ctx example_layout example_os (new_ThreadFilter example_layout)
                    example_started))
        (example_cpu_events @ [Sleep 0 10000000])
   \<and> (1 :: nat) = 0 + delivered example_cpu_events"
proof -
  let ?Cw = "loop_ctx example_layout example_os (new_ThreadFilter example_layout)
               example_wall_started"
  let ?Cc = "loop_ctx example_layout example_os (new_ThreadFilter example_layout) example_started"
  have h1: "\<not> thread_filter_enabled ?Cw" by code_simp
  have h2: "sample_idle_threads ?Cw" by code_simp
  have h3: "for_loop ?Cw 0 [1, 2, 3, 4, 5] 1 = Some (None, 2, 8, example_wall_events)"
    by code_simp
  have h4: "State 3 THREAD_SLEEPING \<in> set example_wall_events"
    "Signal 3 SIGVTALRM True \<in> set example_wall_events"
    by (simp_all add: example_wall_events_def)
  have h5: "\<not> sample_idle_threads ?Cc" by code_simp
  have h6: "for_loop ?Cc 0 [1, 2, 3, 4, 5] 1 = Some (None, 1, 7, example_cpu_events)"
    by code_simp
  have h7: "(0 :: nat) < THREADS_PER_TICK" by (simp add: THREADS_PER_TICK_def)
  note tw = for_loop_routing [of ?Cw "[1, 2, 3, 4, 5]" 0 1 2 500000000,
      THEN conjunct2, rule_format, OF h3]
  note tc = for_loop_routing [of ?Cc "[1, 2, 3, 4, 5]" 0 1 0 10000000,
      THEN conjunct2, rule_format, OF h6]
  have w1: "successively (follows ?Cw) (example_wall_events @ [Sleep 2 500000000])"
    using tw by (rule conjunct1)
  have w2: "(2 :: nat) = 0 + delivered example_wall_events"
    using tw by (elim conjE)
  have w3: "example_wall_events \<noteq> []" by (simp add: example_wall_events_def)
  have "\<exists>vs rest. visited example_wall_events = vs @ [- 1] \<and> - 1 \<notin> set vs
          \<and> [1, 2, 3, 4, 5] = vs @ rest \<and> (rest = [] \<or> hd rest = - 1)"
    using tw by (elim conjE) simp
  then have w4: "\<exists>vs rest. visited example_wall_events = vs @ [- 1] \<and> [1, 2, 3, 4, 5] = vs @ rest"
    by blast
  have c1: "successively (follows ?Cc) (example_cpu_events @ [Sleep 0 10000000])"
    using tc by (rule conjunct1)
  have c2: "(1 :: nat) = 0 + delivered example_cpu_events"
    using tc by (elim conjE)
  show ?thesis using h1 h2 h3 h4 w1 w2 w3 w4 h5 h6 c1 c2 by (intro conjI)
qed

subsection \<open>One tick\<close>

lemma tick_cases:
  assumes "tick C s = Some s'"
  obtains en count clk' evs where
    "for_loop C 0 (enumerated C s) (if thread_list s = None then clock s + 1 else clock s)
       = Some (en, count, clk', evs)"
    "thread_list s' = en"
    "trace s' = trace s @ (if thread_list s = None then [ListThreads] else []) @ evs
                 @ [Sleep (fst (timeout C)) (snd (timeout C))]"
  using assms
  by (cases "thread_list s")
     (auto simp add: tick_def enumerated_def split: option.splits prod.splits)

lemma tick_events:
  assumes "tick C s = Some s'"
  obtains en count clk' evs where
    "for_loop C 0 (enumerated C s) (if thread_list s = None then clock s + 1 else clock s)
       = Some (en, count, clk', evs)"
    "thread_list s' = en"
    "trace s' = trace s @ ((if thread_list s = None then [ListThreads] else []) @ evs
                 @ [Sleep (fst (timeout C)) (snd (timeout C))])"
    "successively (follows C) ((if thread_list s = None then [ListThreads] else []) @ evs
                 @ [Sleep (fst (timeout C)) (snd (timeout C))])"
proof -
  from assms obtain en count clk' evs where
    run: "for_loop C 0 (enumerated C s) (if thread_list s = None then clock s + 1 else clock s)
            = Some (en, count, clk', evs)"
    and en: "thread_list s' = en"
    and tr: "trace s' = trace s @ (if thread_list s = None then [ListThreads] else []) @ evs
                          @ [Sleep (fst (timeout C)) (snd (timeout C))]"
    by (rule tick_cases)
  let ?sl = "Sleep (fst (timeout C)) (snd (timeout C))"
  have body: "successively (follows C) (evs @ [?sl])"
    using for_loop_follows [OF run, of ?sl] by simp
  have hd_body: "\<not> is_State (hd (evs @ [?sl])) \<and> \<not> is_Signal (hd (evs @ [?sl]))"
    using for_loop_head [OF run] by auto
  have "successively (follows C) ((if thread_list s = None then [ListThreads] else []) @ evs @ [?sl])"
    using body hd_body by (simp add: successively_Cons follows_simps)
  then show ?thesis using run en tr that by simp
qed

lemma tick_clock:
  assumes "tick C s = Some s'"
  shows "\<exists>b. trace s' = trace s @ b \<and> clock s' = clock s + outside_calls b"
proof -
  from assms obtain en count clk' evs where
    run: "for_loop C 0 (enumerated C s) (if thread_list s = None then clock s + 1 else clock s)
            = Some (en, count, clk', evs)"
    and tr: "trace s' = trace s @ (if thread_list s = None then [ListThreads] else []) @ evs
                          @ [Sleep (fst (timeout C)) (snd (timeout C))]"
    by (rule tick_cases)
  have "clock s' = clk' + 1"
    using assms run
    by (cases "thread_list s") (auto simp add: tick_def enumerated_def split: option.splits)
  then show ?thesis using for_loop_clock [OF run] tr by (cases "thread_list s") auto
qed

lemma tick_run:
  assumes "tick C s = Some s'"
  shows "\<exists>evs. trace s' = trace s @ evs
           \<and> delivered evs \<le> THREADS_PER_TICK
           \<and> (\<forall>rest. thread_list s' = Some rest \<longrightarrow>
                 delivered evs = THREADS_PER_TICK \<and> enumerated C s = visited evs @ rest)
           \<and> (delivered evs = THREADS_PER_TICK) = (thread_list s' \<noteq> None)
           \<and> (thread_list s' = None \<longrightarrow>
                 (\<exists>vs rest. visited evs = vs @ [- 1] \<and> - 1 \<notin> set vs
                    \<and> enumerated C s = vs @ rest \<and> (rest = [] \<or> hd rest = - 1)))
           \<and> successively (follows C) evs
           \<and> (\<forall>pre t sg ok post. evs = pre @ Signal t sg ok # post \<longrightarrow>
                 ok = sendSignalToThread (os C) (clock s + outside_calls pre) t sg)"
proof -
  let ?pre = "if thread_list s = None then [ListThreads] else []"
  let ?sl = "Sleep (fst (timeout C)) (snd (timeout C))"
  from assms obtain en count clk' evs where
    run: "for_loop C 0 (enumerated C s) (if thread_list s = None then clock s + 1 else clock s)
            = Some (en, count, clk', evs)"
    and en: "thread_list s' = en"
    and tr: "trace s' = trace s @ (?pre @ evs @ [?sl])"
    and fo: "successively (follows C) (?pre @ evs @ [?sl])"
    by (rule tick_events)
  let ?evs = "?pre @ evs @ [?sl]"
  have d: "delivered ?evs = delivered evs" and v: "visited ?evs = visited evs" by simp_all
  have c: "count = delivered evs" using for_loop_count [OF run] by simp
  have "count \<le> THREADS_PER_TICK" using for_loop_budget [OF run] by simp
  then have 1: "delivered ?evs \<le> THREADS_PER_TICK" using c d by simp
  have 2: "\<forall>rest. thread_list s' = Some rest \<longrightarrow>
             delivered ?evs = THREADS_PER_TICK \<and> enumerated C s = visited ?evs @ rest"
    using for_loop_retained [OF run] en c d v by simp
  have 3: "(delivered ?evs = THREADS_PER_TICK) = (thread_list s' \<noteq> None)"
    using for_loop_kept [OF run] en c 1 unfolding d by auto
  have 4: "thread_list s' = None \<longrightarrow>
             (\<exists>vs rest. visited ?evs = vs @ [- 1] \<and> - 1 \<notin> set vs
                \<and> enumerated C s = vs @ rest \<and> (rest = [] \<or> hd rest = - 1))"
    using for_loop_exhausted [OF run] en unfolding v by simp
  have 5: "\<forall>p t sg ok post. ?evs = p @ Signal t sg ok # post \<longrightarrow>
             ok = sendSignalToThread (os C) (clock s + outside_calls p) t sg"
  proof (intro allI impI)
    fix p t sg ok post
    assume eq: "?evs = p @ Signal t sg ok # post"
    have inner: "ok = sendSignalToThread (os C) (clk + outside_calls q) t sg"
      if "for_loop C 0 (enumerated C s) clk = Some (en, count, clk', evs)"
        and "evs @ [?sl] = q @ Signal t sg ok # post" for clk q
    proof (cases post rule: rev_cases)
      case Nil
      then show ?thesis using that(2) by simp
    next
      case (snoc post' x)
      then have "evs = q @ Signal t sg ok # post'" using that(2) by simp
      with that(1) show ?thesis by (rule for_loop_answers_at)
    qed
    show "ok = sendSignalToThread (os C) (clock s + outside_calls p) t sg"
    proof (cases "thread_list s")
      case None
      then have e: "ListThreads # evs @ [?sl] = p @ Signal t sg ok # post" using eq by simp
      then obtain q where p: "p = ListThreads # q" and q: "evs @ [?sl] = q @ Signal t sg ok # post"
        by (cases p) auto
      have "for_loop C 0 (enumerated C s) (clock s + 1) = Some (en, count, clk', evs)"
        using run None by simp
      from inner [OF this q] show ?thesis using p by simp
    next
      case (Some xs)
      then have q: "evs @ [?sl] = p @ Signal t sg ok # post" using eq by simp
      have "for_loop C 0 (enumerated C s) (clock s) = Some (en, count, clk', evs)"
        using run Some by simp
      from inner [OF this q] show ?thesis by simp
    qed
  qed
  show ?thesis
    by (rule exI [of _ ?evs]) (intro conjI tr 1 2 3 4 fo 5)
qed

text \<open>
  Claim C5. A tick has a result wherever \<open>accept\<close> is defined. In one tick at most
  \<open>THREADS_PER_TICK\<close> signals are delivered, a signal being delivered when the outside
  answered true to it. The tick keeps its enumerator exactly when \<open>THREADS_PER_TICK\<close>
  were delivered, so that no failed delivery was counted; then the identifiers the
  enumerator held when the tick began are those \<open>next()\<close> gave during the tick followed
  by those the kept enumerator still holds: none is lost. Otherwise the tick has drawn
  every identifier up to the end sentinel. Its events follow the routing of signals,
  and the answer recorded for a signal is the one the outside gave at that moment.
\<close>

theorem tick_budget:
  "((thread_filter_enabled C \<longrightarrow>
       (\<forall>t \<in> set (enumerated C s). accept (lay C) (thread_filter C) t \<noteq> None))
      \<longrightarrow> tick C s \<noteq> None)
   \<and> (\<forall>s'. tick C s = Some s' \<longrightarrow>
         (\<exists>evs. trace s' = trace s @ evs
            \<and> delivered evs \<le> THREADS_PER_TICK
            \<and> (\<forall>rest. thread_list s' = Some rest \<longrightarrow>
                  delivered evs = THREADS_PER_TICK \<and> enumerated C s = visited evs @ rest)
            \<and> (delivered evs = THREADS_PER_TICK) = (thread_list s' \<noteq> None)
            \<and> (thread_list s' = None \<longrightarrow>
                  (\<exists>vs rest. visited evs = vs @ [- 1] \<and> - 1 \<notin> set vs
                     \<and> enumerated C s = vs @ rest \<and> (rest = [] \<or> hd rest = - 1)))
            \<and> successively (follows C) evs
            \<and> (\<forall>pre t sg ok post. evs = pre @ Signal t sg ok # post \<longrightarrow>
                  ok = sendSignalToThread (os C) (clock s + outside_calls pre) t sg)))"
proof (intro conjI allI impI)
  assume "thread_filter_enabled C \<longrightarrow>
            (\<forall>t \<in> set (enumerated C s). accept (lay C) (thread_filter C) t \<noteq> None)"
  then show "tick C s \<noteq> None" by (intro tick_defined) simp
next
  fix s'
  assume "tick C s = Some s'"
  then show "\<exists>evs. trace s' = trace s @ evs
            \<and> delivered evs \<le> THREADS_PER_TICK
            \<and> (\<forall>rest. thread_list s' = Some rest \<longrightarrow>
                  delivered evs = THREADS_PER_TICK \<and> enumerated C s = visited evs @ rest)
            \<and> (delivered evs = THREADS_PER_TICK) = (thread_list s' \<noteq> None)
            \<and> (thread_list s' = None \<longrightarrow>
                  (\<exists>vs rest. visited evs = vs @ [- 1] \<and> - 1 \<notin> set vs
                     \<and> enumerated C s = vs @ rest \<and> (rest = [] \<or> hd rest = - 1)))
            \<and> successively (follows C) evs
            \<and> (\<forall>pre t sg ok post. evs = pre @ Signal t sg ok # post \<longrightarrow>
                  ok = sendSignalToThread (os C) (clock s + outside_calls pre) t sg)"
    by (rule tick_run)
qed

theorem tick_budget_witness:
  "\<not> thread_filter_enabled
        (loop_ctx example_layout example_busy_os (new_ThreadFilter example_layout)
           example_wall_started)
   \<and> tick (loop_ctx example_layout example_busy_os (new_ThreadFilter example_layout)
             example_wall_started)
        \<lparr>thread_list = None, clock = 0, trace = []\<rparr>
     = Some \<lparr>thread_list = Some [11, 12], clock = 20, trace = example_budget_tick\<rparr>
   \<and> Signal 4 SIGPROF False \<in> set example_budget_tick
   \<and> delivered example_budget_tick = THREADS_PER_TICK
   \<and> [2, 3, 4, 5, 6, 7, 8, 9, 10, 11, 12] = visited example_budget_tick @ [11, 12]
   \<and> tick (loop_ctx example_layout example_busy_os (new_ThreadFilter example_layout)
             example_wall_started)
        \<lparr>thread_list = Some [11, 12], clock = 20, trace = example_budget_tick\<rparr>
     = Some \<lparr>thread_list = None, clock = 25, trace = example_budget_tick @ example_last_tick\<rparr>
   \<and> delivered example_last_tick < THREADS_PER_TICK
   \<and> visited example_last_tick = [11, 12] @ [- 1]"
proof -
  let ?C = "loop_ctx example_layout example_busy_os (new_ThreadFilter example_layout)
              example_wall_started"
  let ?s0 = "\<lparr>thread_list = None, clock = 0, trace = []\<rparr>"
  let ?s1 = "\<lparr>thread_list = Some [11, 12], clock = 20, trace = example_budget_tick\<rparr>"
  let ?s2 = "\<lparr>thread_list = None, clock = 25,
              trace = example_budget_tick @ example_last_tick\<rparr>"
  have h0: "\<not> thread_filter_enabled ?C" by code_simp
  have h1: "tick ?C ?s0 = Some ?s1" by code_simp
  have h2: "tick ?C ?s1 = Some ?s2" by code_simp
  have e0: "enumerated ?C ?s0 = [2, 3, 4, 5, 6, 7, 8, 9, 10, 11, 12]" by code_simp
  have h3: "Signal 4 SIGPROF False \<in> set example_budget_tick"
    by (simp add: example_budget_tick_def)
  have v2: "visited example_last_tick = [11, 12] @ [- 1]"
    by (simp add: example_last_tick_def)
  from tick_budget [of ?C ?s0, THEN conjunct2, rule_format, OF h1] obtain evs where
    a: "trace ?s1 = trace ?s0 @ evs"
      "\<forall>rest. thread_list ?s1 = Some rest \<longrightarrow>
         delivered evs = THREADS_PER_TICK \<and> enumerated ?C ?s0 = visited evs @ rest"
    apply (elim exE conjE)
    apply (rule that)
    apply assumption+
    done
  have "evs = example_budget_tick" using a(1) by simp
  then have c1: "delivered example_budget_tick = THREADS_PER_TICK"
    and c2: "[2, 3, 4, 5, 6, 7, 8, 9, 10, 11, 12] = visited example_budget_tick @ [11, 12]"
    using a(2) e0 by simp_all
  from tick_budget [of ?C ?s1, THEN conjunct2, rule_format, OF h2] obtain evs' where
    b: "trace ?s2 = trace ?s1 @ evs'"
      "delivered evs' \<le> THREADS_PER_TICK"
      "(delivered evs' = THREADS_PER_TICK) = (thread_list ?s2 \<noteq> None)"
    apply (elim exE conjE)
    apply (rule that)
    apply assumption+
    done
  have "evs' = example_last_tick" using b(1) by simp
  then have c3: "delivered example_last_tick < THREADS_PER_TICK" using b(2,3) by simp
  show ?thesis using h0 h1 h3 c1 c2 h2 c3 v2 by (intro conjI)
qed

lemma tick_block:
  assumes "tick C s = Some s'"
  shows "\<exists>b. trace s' = trace s @ b \<and> tick_shaped (timeout C) b
           \<and> (take 1 b = [ListThreads]) = (thread_list s = None)
           \<and> (Next (- 1) \<in> set b) = (thread_list s' = None)"
proof -
  let ?pre = "if thread_list s = None then [ListThreads] else []"
  let ?sl = "Sleep (fst (timeout C)) (snd (timeout C))"
  from assms obtain en count clk' evs where
    run: "for_loop C 0 (enumerated C s) (if thread_list s = None then clock s + 1 else clock s)
            = Some (en, count, clk', evs)"
    and en: "thread_list s' = en"
    and tr: "trace s' = trace s @ (?pre @ evs @ [?sl])"
    by (rule tick_events)
  define body where "body = ?pre @ evs"
  define b where "b = body @ [?sl]"
  have tr': "trace s' = trace s @ b" using tr by (simp add: b_def body_def)
  have calls: "\<not> is_Sleep e \<and> e \<noteq> ListThreads" if "e \<in> set evs" for e
    using for_loop_calls [OF run that] .
  have ne: "evs \<noteq> []" using for_loop_progress [OF run] by (simp add: THREADS_PER_TICK_def)
  have hd: "\<exists>t es. evs = Next t # es" using for_loop_head [OF run] ne by simp
  have c: "count = delivered evs" using for_loop_count [OF run] by simp
  have le: "count \<le> THREADS_PER_TICK" using for_loop_budget [OF run] by simp
  have db: "delivered b = count" using c by (simp add: b_def body_def)
  have mem: "(Next (- 1) \<in> set b) = (Next (- 1) \<in> set evs)"
    "(Delete \<in> set b) = (Delete \<in> set evs)"
    by (auto simp add: b_def body_def)
  have bl: "b \<noteq> []" "last b = ?sl" "butlast b = body" by (simp_all add: b_def)
  have s1: "filter is_Sleep body = []"
    using calls by (auto simp add: body_def filter_empty_conv)
  have "e \<noteq> ListThreads" if "e \<in> set (tl evs)" for e
    using calls [of e] that ne by (auto dest: list.set_sel(2))
  then have s2: "filter (\<lambda>e. e = ListThreads) (tl b) = []"
    using calls ne by (auto simp add: b_def body_def filter_empty_conv)
  have s3: "tick_shaped (timeout C) b \<and> (Next (- 1) \<in> set b) = (thread_list s' = None)"
  proof (cases en)
    case None
    from for_loop_deleted [OF run None] obtain evs' where
      e: "evs = evs' @ [Next (- 1), Delete]" and lt: "count < THREADS_PER_TICK" by blast
    have "Next (- 1) \<in> set evs" "Delete \<in> set evs" unfolding e by simp_all
    moreover have "take 2 (rev body) = [Delete, Next (- 1)]" unfolding body_def e by simp
    ultimately show ?thesis
      using None en lt le s1 s2 by (simp add: tick_shaped_def bl mem db)
  next
    case (Some rest)
    from for_loop_retained [OF run _ Some]
    have r: "count = THREADS_PER_TICK" "Next (- 1) \<notin> set evs" "Delete \<notin> set evs" by simp_all
    have nd: "Delete \<notin> set body" using r(3) by (simp add: body_def)
    have "take 2 (rev body) \<noteq> [Delete, Next (- 1)]"
    proof
      assume a: "take 2 (rev body) = [Delete, Next (- 1)]"
      have "set (take 2 (rev body)) \<subseteq> set (rev body)" by (rule set_take_subset)
      then have "set [Delete, Next (- 1)] \<subseteq> set (rev body)" by (simp only: a)
      then show False using nd by simp
    qed
    then show ?thesis
      using Some en r s1 s2 by (simp add: tick_shaped_def bl mem db)
  qed
  then have "tick_shaped (timeout C) b" by (rule conjunct1)
  moreover have "(take 1 b = [ListThreads]) = (thread_list s = None)"
    using hd by (auto simp add: b_def body_def)
  moreover have "(Next (- 1) \<in> set b) = (thread_list s' = None)" using s3 by (rule conjunct2)
  ultimately show ?thesis using tr' by (intro exI [of _ b] conjI)
qed

lemma tick_keeps_suffix:
  assumes "tick C s = Some s'" and "thread_list s' = Some rest"
  shows "set rest \<subseteq> set (enumerated C s)"
proof -
  from assms(1) obtain en count clk' evs where
    run: "for_loop C 0 (enumerated C s) (if thread_list s = None then clock s + 1 else clock s)
            = Some (en, count, clk', evs)"
    and en: "thread_list s' = en"
    by (rule tick_cases)
  have "enumerated C s = visited evs @ rest"
    using for_loop_kept_all [OF run, of rest] en assms(2) by simp
  then show ?thesis by auto
qed

subsection \<open>Runs of timerLoop\<close>

lemma is_Sleep_follows: "is_Sleep e1 \<Longrightarrow> follows C e1 e2 = (\<not> is_State e2 \<and> \<not> is_Signal e2)"
  by (cases e1) (simp_all add: follows_simps)

lemma tick_signals:
  assumes "tick C s = Some s'" and "Signal t sg ok \<in> set (trace s')"
  shows "Signal t sg ok \<in> set (trace s) \<or> passes C t"
proof -
  from assms(1) obtain en count clk' evs where
    run: "for_loop C 0 (enumerated C s) (if thread_list s = None then clock s + 1 else clock s)
            = Some (en, count, clk', evs)"
    and tr: "trace s' = trace s @ (if thread_list s = None then [ListThreads] else []) @ evs
                          @ [Sleep (fst (timeout C)) (snd (timeout C))]"
    by (rule tick_cases)
  from assms(2) have "Signal t sg ok \<in> set (trace s) \<or> Signal t sg ok \<in> set evs"
    unfolding tr by (auto split: if_splits)
  then show ?thesis using for_loop_signals [OF run] by blast
qed

lemma tick_follows:
  assumes "tick C s = Some s'" and "successively (follows C) (trace s)"
    and "trace s = [] \<or> is_Sleep (last (trace s))"
  shows "successively (follows C) (trace s') \<and> trace s' \<noteq> [] \<and> is_Sleep (last (trace s'))"
proof -
  from assms(1) obtain en count clk' evs where
    run: "for_loop C 0 (enumerated C s) (if thread_list s = None then clock s + 1 else clock s)
            = Some (en, count, clk', evs)"
    and tr: "trace s' = trace s @ (if thread_list s = None then [ListThreads] else []) @ evs
                          @ [Sleep (fst (timeout C)) (snd (timeout C))]"
    by (rule tick_cases)
  let ?sl = "Sleep (fst (timeout C)) (snd (timeout C))"
  let ?new = "(if thread_list s = None then [ListThreads] else []) @ evs @ [?sl]"
  have body: "successively (follows C) (evs @ [?sl])"
    using for_loop_follows [OF run, of ?sl] by simp
  have hd_body: "\<not> is_State (hd (evs @ [?sl])) \<and> \<not> is_Signal (hd (evs @ [?sl]))"
    using for_loop_head [OF run] by auto
  have new: "successively (follows C) ?new"
    using body hd_body by (simp add: successively_Cons follows_simps)
  have hd_new: "\<not> is_State (hd ?new) \<and> \<not> is_Signal (hd ?new)"
    using hd_body by simp
  have "successively (follows C) (trace s @ ?new)"
    using assms(2,3) new hd_new
    by (auto simp add: successively_append_iff is_Sleep_follows)
  then show ?thesis unfolding tr by simp
qed

lemma while_loop_signals:
  "trace_of (while_loop fuel C s) = Some evs \<Longrightarrow> Signal t sg ok \<in> set evs \<Longrightarrow>
   Signal t sg ok \<in> set (trace s) \<or> passes C t"
proof (induction fuel arbitrary: s)
  case 0
  then show ?case by simp
next
  case (Suc fuel)
  show ?case
  proof (cases "running_at (os C) (clock s)")
    case False
    then show ?thesis using Suc.prems by (auto split: if_splits)
  next
    case True
    then obtain s' where t: "tick C (s\<lparr>clock := clock s + 1\<rparr>) = Some s'"
      and w: "while_loop (Suc fuel) C s = while_loop fuel C s'"
      using Suc.prems(1) by (cases "tick C (s\<lparr>clock := clock s + 1\<rparr>)") auto
    have "Signal t sg ok \<in> set (trace s') \<or> passes C t"
      using Suc.IH [of s'] Suc.prems w by simp
    then show ?thesis using tick_signals [OF t] by auto
  qed
qed

lemma while_loop_follows:
  "trace_of (while_loop fuel C s) = Some evs \<Longrightarrow> successively (follows C) (trace s) \<Longrightarrow>
   trace s = [] \<or> is_Sleep (last (trace s)) \<Longrightarrow> successively (follows C) evs"
proof (induction fuel arbitrary: s)
  case 0
  then show ?case by simp
next
  case (Suc fuel)
  show ?case
  proof (cases "running_at (os C) (clock s)")
    case False
    then show ?thesis using Suc.prems
      by (auto simp add: successively_append_iff is_Sleep_follows split: if_splits)
  next
    case True
    then obtain s' where t: "tick C (s\<lparr>clock := clock s + 1\<rparr>) = Some s'"
      and w: "while_loop (Suc fuel) C s = while_loop fuel C s'"
      using Suc.prems(1) by (cases "tick C (s\<lparr>clock := clock s + 1\<rparr>)") auto
    have "successively (follows C) (trace s') \<and> trace s' \<noteq> [] \<and> is_Sleep (last (trace s'))"
      using tick_follows [OF t] Suc.prems(2,3) by simp
    then show ?thesis using Suc.IH [of s'] Suc.prems(1) w by simp
  qed
qed

lemma timerLoop_follows:
  "trace_of (timerLoop fuel L world f w) = Some evs \<Longrightarrow>
   successively (follows (loop_ctx L world f w)) evs"
proof -
  assume "trace_of (timerLoop fuel L world f w) = Some evs"
  then have "trace_of (while_loop fuel (loop_ctx L world f w)
      \<lparr>thread_list = None, clock = 0, trace = []\<rparr>) = Some evs"
    by (simp only: timerLoop_def)
  then show ?thesis by (rule while_loop_follows) simp_all
qed

lemma successively_middle:
  "successively P (pre @ a # b # post) \<Longrightarrow> P a b"
  by (simp add: successively_append_iff successively_Cons)

text \<open>
  Claim C6. In every run of \<open>timerLoop\<close>, however long, a thread that is sent a signal
  is not the loop's own thread, and is accepted by the filter when the filter is
  enabled; so, when the enabled filter accepts no thread but \<open>T\<close>, it is \<open>T\<close>.
\<close>

theorem timerLoop_exclusion:
  assumes "trace_of (timerLoop fuel L world f w) = Some evs"
    and "Signal t sg ok \<in> set evs"
  shows "t \<noteq> threadId world
       \<and> (enabled f \<longrightarrow> accept L f t = Some True)
       \<and> (\<forall>T. enabled f \<and> (\<forall>u. u \<noteq> T \<longrightarrow> accept L f u \<noteq> Some True) \<longrightarrow> t = T)"
proof -
  have "passes (loop_ctx L world f w) t"
    using while_loop_signals [OF assms(1) [unfolded timerLoop_def] assms(2)] by simp
  then have "t \<noteq> threadId world" "enabled f \<longrightarrow> accept L f t = Some True"
    by (simp_all add: passes_def loop_ctx_def)
  then show ?thesis by blast
qed

theorem timerLoop_exclusion_witness:
  "trace_of (timerLoop 1 example_layout example_os example_filter example_started)
     = Some [ListThreads, Next 1, Next 2, State 2 THREAD_RUNNING, Signal 2 SIGPROF True,
             Next 3, Next 4, Next 5, Next (- 1), Delete, Sleep 0 10000000]
   \<and> Signal 2 SIGPROF True
       \<in> set [ListThreads, Next 1, Next 2, State 2 THREAD_RUNNING, Signal 2 SIGPROF True,
               Next 3, Next 4, Next 5, Next (- 1), Delete, Sleep 0 10000000]
   \<and> (2 :: tid) \<noteq> threadId example_os
   \<and> enabled example_filter
   \<and> accept example_layout example_filter 2 = Some True
   \<and> \<not> (\<exists>u. u \<noteq> 2 \<and> accept example_layout example_filter u = Some True)"
proof -
  let ?evs = "[ListThreads, Next 1, Next 2, State 2 THREAD_RUNNING, Signal 2 SIGPROF True,
               Next 3, Next 4, Next 5, Next (- 1), Delete, Sleep 0 10000000]"
  have h1: "trace_of (timerLoop 1 example_layout example_os example_filter example_started)
              = Some ?evs"
    by code_simp
  have h2: "Signal 2 SIGPROF True \<in> set ?evs" by simp
  have h3: "enabled example_filter" by code_simp
  have h4: "layout_ok example_layout" by code_simp
  have h5: "add example_layout (init (new_ThreadFilter example_layout) (Some ''main'')) 2
              = Some example_filter"
    by code_simp
  have h6: "\<not> (\<exists>u. u \<noteq> 2 \<and> accept example_layout example_filter u = Some True)"
    using only_added [OF h4 h5] by blast
  note t = timerLoop_exclusion [OF h1 h2]
  have c1: "(2 :: tid) \<noteq> threadId example_os" using t by blast
  have c2: "accept example_layout example_filter 2 = Some True" using t h3 by blast
  show ?thesis using h1 h2 h3 h6 c1 c2 by blast
qed

lemma while_loop_defined:
  assumes "thread_filter_enabled C \<Longrightarrow>
             \<forall>n. \<forall>t \<in> set (listThreads (os C) n). accept (lay C) (thread_filter C) t \<noteq> None"
  shows "(thread_filter_enabled C \<Longrightarrow>
            \<forall>xs. thread_list s = Some xs \<longrightarrow>
              (\<forall>t \<in> set xs. accept (lay C) (thread_filter C) t \<noteq> None)) \<Longrightarrow>
         while_loop fuel C s \<noteq> Undefined"
proof (induction fuel arbitrary: s)
  case 0
  then show ?case by simp
next
  case (Suc fuel)
  show ?case
  proof (cases "running_at (os C) (clock s)")
    case False
    then show ?thesis by simp
  next
    case True
    let ?s = "s\<lparr>clock := clock s + 1\<rparr>"
    have ok: "\<forall>t \<in> set (enumerated C ?s). accept (lay C) (thread_filter C) t \<noteq> None"
      if "thread_filter_enabled C"
      using assms [OF that] Suc.prems [OF that]
      by (cases "thread_list s") (simp_all add: enumerated_def)
    then have "tick C ?s \<noteq> None" by (rule tick_defined)
    then obtain s' where t: "tick C ?s = Some s'" by blast
    have "\<forall>xs. thread_list s' = Some xs \<longrightarrow>
            (\<forall>t \<in> set xs. accept (lay C) (thread_filter C) t \<noteq> None)"
      if "thread_filter_enabled C"
      using tick_keeps_suffix [OF t] ok [OF that] by blast
    then have "while_loop fuel C s' \<noteq> Undefined" by (rule Suc.IH)
    then show ?thesis using True t by simp
  qed
qed

lemma timerLoop_defined:
  assumes "enabled f \<longrightarrow> (\<forall>n. \<forall>t \<in> set (listThreads world n). accept L f t \<noteq> None)"
  shows "timerLoop fuel L world f w \<noteq> Undefined"
  unfolding timerLoop_def
  by (rule while_loop_defined) (use assms in \<open>simp_all add: loop_ctx_def\<close>)

lemma timeout_valid:
  assumes "0 \<le> (i :: int)"
  shows "0 \<le> i sdiv 1000000000 \<and> 0 \<le> i smod 1000000000 \<and> i smod 1000000000 < 1000000000"
proof -
  have "i sdiv 1000000000 = i div 1000000000" "i smod 1000000000 = i mod 1000000000"
    using assms by (simp_all add: signed_divide_int_def signed_modulo_int_def sgn_if)
  then show ?thesis using assms by simp
qed

lemma tick_block_clock:
  assumes "tick C s = Some s'"
  shows "\<exists>b. trace s' = trace s @ b \<and> tick_shaped (timeout C) b
           \<and> (take 1 b = [ListThreads]) = (thread_list s = None)
           \<and> (Next (- 1) \<in> set b) = (thread_list s' = None)
           \<and> clock s' = clock s + outside_calls b"
proof -
  from tick_block [OF assms] obtain b where
    b: "trace s' = trace s @ b" "tick_shaped (timeout C) b"
      "(take 1 b = [ListThreads]) = (thread_list s = None)"
      "(Next (- 1) \<in> set b) = (thread_list s' = None)"
    apply (elim exE conjE)
    apply (rule that)
    apply assumption+
    done
  from tick_clock [OF assms] obtain b' where
    b': "trace s' = trace s @ b'" "clock s' = clock s + outside_calls b'" by blast
  have "b' = b" using b(1) b'(1) by simp
  then show ?thesis using b b'(2) by (intro exI [of _ b] conjI) simp_all
qed

lemma while_loop_blocks:
  "while_loop fuel C s = out \<Longrightarrow> trace_of out = Some evs \<Longrightarrow>
   \<exists>blocks final. evs = trace s @ concat blocks @ final
     \<and> list_all (tick_shaped (timeout C)) blocks
     \<and> successively fresh_after blocks
     \<and> (blocks = [] \<or> (take 1 (hd blocks) = [ListThreads]) = (thread_list s = None))
     \<and> (final = [] \<or> final = [Delete])
     \<and> (\<forall>k < length blocks.
           running_at (os C) (clock s + outside_calls (concat (take k blocks)) + k))
     \<and> (case out of
           Undefined \<Rightarrow> True
         | Returned s' \<Rightarrow>
             length blocks < fuel
             \<and> \<not> running_at (os C) (clock s + outside_calls (concat blocks) + length blocks)
         | Still_running s' \<Rightarrow> length blocks = fuel \<and> final = [])"
proof (induction fuel arbitrary: s)
  case 0
  then have "out = Still_running s" "evs = trace s" by auto
  then show ?case by (intro exI [of _ "[]"]) simp
next
  case (Suc fuel)
  show ?case
  proof (cases "running_at (os C) (clock s)")
    case False
    let ?final = "if thread_list s = None then [] else [Delete]"
    have out: "out = Returned (s\<lparr>thread_list := None, clock := clock s + 1,
                    trace := trace s @ ?final\<rparr>)"
      using Suc.prems(1) False by simp
    then have "evs = trace s @ concat [] @ ?final" using Suc.prems(2) by auto
    moreover have "?final = [] \<or> ?final = [Delete]" by simp
    ultimately show ?thesis using out False
      by (intro exI [of _ "[]"] exI [of _ ?final]) simp
  next
    case True
    let ?s = "s\<lparr>clock := clock s + 1\<rparr>"
    from True obtain s' where t: "tick C ?s = Some s'"
      and w: "while_loop fuel C s' = out"
      using Suc.prems by (cases "tick C ?s") auto
    from tick_block_clock [OF t] have "\<exists>b. trace s' = trace s @ b \<and> tick_shaped (timeout C) b
        \<and> (take 1 b = [ListThreads]) = (thread_list s = None)
        \<and> (Next (- 1) \<in> set b) = (thread_list s' = None)
        \<and> clock s' = clock s + 1 + outside_calls b"
      by simp
    then obtain b where
      b: "trace s' = trace s @ b" "tick_shaped (timeout C) b"
        "(take 1 b = [ListThreads]) = (thread_list s = None)"
        "(Next (- 1) \<in> set b) = (thread_list s' = None)"
        "clock s' = clock s + 1 + outside_calls b"
      apply (elim exE conjE)
      apply (rule that)
      apply assumption+
      done
    from Suc.IH [OF w Suc.prems(2)] obtain blocks final where
      ih: "evs = trace s' @ concat blocks @ final"
        "list_all (tick_shaped (timeout C)) blocks"
        "successively fresh_after blocks"
        "blocks = [] \<or> (take 1 (hd blocks) = [ListThreads]) = (thread_list s' = None)"
        "final = [] \<or> final = [Delete]"
        "\<forall>k < length blocks.
           running_at (os C) (clock s' + outside_calls (concat (take k blocks)) + k)"
        "case out of
           Undefined \<Rightarrow> True
         | Returned s'a \<Rightarrow>
             length blocks < fuel
             \<and> \<not> running_at (os C) (clock s' + outside_calls (concat blocks) + length blocks)
         | Still_running s'a \<Rightarrow> length blocks = fuel \<and> final = []"
      apply (elim exE conjE)
      apply (rule that)
      apply assumption+
      done
    have 1: "evs = trace s @ concat (b # blocks) @ final" using ih(1) b(1) by simp
    have 2: "list_all (tick_shaped (timeout C)) (b # blocks)" using ih(2) b(2) by simp
    have "blocks = [] \<or> fresh_after b (hd blocks)"
      using ih(4) b(4) by (auto simp add: fresh_after_def)
    then have 3: "successively fresh_after (b # blocks)"
      using ih(3) by (auto simp add: successively_Cons)
    have 4: "b # blocks = [] \<or>
             (take 1 (hd (b # blocks)) = [ListThreads]) = (thread_list s = None)"
      using b(3) by simp
    have 5: "\<forall>k < length (b # blocks).
           running_at (os C) (clock s + outside_calls (concat (take k (b # blocks))) + k)"
    proof (intro allI impI)
      fix k assume k: "k < length (b # blocks)"
      show "running_at (os C) (clock s + outside_calls (concat (take k (b # blocks))) + k)"
      proof (cases k)
        case 0
        then show ?thesis using True by simp
      next
        case (Suc j)
        then have "j < length blocks" using k by simp
        then have "running_at (os C) (clock s' + outside_calls (concat (take j blocks)) + j)"
          using ih(6) by blast
        moreover have "clock s' + outside_calls (concat (take j blocks)) + j
            = clock s + outside_calls (concat (take k (b # blocks))) + k"
          using Suc b(5) by simp
        ultimately show ?thesis by simp
      qed
    qed
    have e: "clock s' + outside_calls (concat blocks) + length blocks
        = clock s + outside_calls (concat (b # blocks)) + length (b # blocks)"
      using b(5) by simp
    have 6: "case out of
           Undefined \<Rightarrow> True
         | Returned s'a \<Rightarrow>
             length (b # blocks) < Suc fuel
             \<and> \<not> running_at (os C)
                   (clock s + outside_calls (concat (b # blocks)) + length (b # blocks))
         | Still_running s'a \<Rightarrow> length (b # blocks) = Suc fuel \<and> final = []"
      using ih(7) unfolding e by (cases out) simp_all
    show ?thesis
      by (intro exI [of _ "b # blocks"] exI [of _ final] conjI 1 2 3 4 ih(5) 5 6)
  qed
qed

lemma timerLoop_blocks:
  assumes "timerLoop fuel L world f w = out" and "trace_of out = Some evs"
  shows "\<exists>sec nsec blocks final.
           sec = m_interval w sdiv 1000000000 \<and> nsec = m_interval w smod 1000000000
           \<and> sec * 1000000000 + nsec = m_interval w
           \<and> (0 \<le> m_interval w \<longrightarrow> 0 \<le> sec \<and> 0 \<le> nsec \<and> nsec < 1000000000)
           \<and> evs = concat blocks @ final
           \<and> list_all (tick_shaped (sec, nsec)) blocks
           \<and> successively fresh_after blocks
           \<and> (blocks = [] \<or> take 1 (hd blocks) = [ListThreads])
           \<and> (final = [] \<or> final = [Delete])
           \<and> (\<forall>k < length blocks.
                 running_at world (outside_calls (concat (take k blocks)) + k))
           \<and> (case out of
                 Undefined \<Rightarrow> True
               | Returned s' \<Rightarrow>
                   length blocks < fuel
                   \<and> \<not> running_at world (outside_calls (concat blocks) + length blocks)
               | Still_running s' \<Rightarrow> length blocks = fuel \<and> final = [])"
proof -
  let ?C = "loop_ctx L world f w"
  let ?s = "\<lparr>thread_list = None, clock = 0, trace = []\<rparr>"
  let ?sec = "m_interval w sdiv 1000000000" and ?nsec = "m_interval w smod 1000000000"
  have run: "while_loop fuel ?C ?s = out" using assms(1) by (simp only: timerLoop_def)
  have tmo: "timeout ?C = (?sec, ?nsec)" and os: "os ?C = world" by (simp_all add: loop_ctx_def)
  from while_loop_blocks [OF run assms(2)] obtain blocks final where
    b: "evs = trace ?s @ concat blocks @ final"
      "list_all (tick_shaped (timeout ?C)) blocks"
      "successively fresh_after blocks"
      "blocks = [] \<or> (take 1 (hd blocks) = [ListThreads]) = (thread_list ?s = None)"
      "final = [] \<or> final = [Delete]"
      "\<forall>k < length blocks.
         running_at (os ?C) (clock ?s + outside_calls (concat (take k blocks)) + k)"
      "case out of
         Undefined \<Rightarrow> True
       | Returned s' \<Rightarrow>
           length blocks < fuel
           \<and> \<not> running_at (os ?C) (clock ?s + outside_calls (concat blocks) + length blocks)
       | Still_running s' \<Rightarrow> length blocks = fuel \<and> final = []"
    apply (elim exE conjE)
    apply (rule that)
    apply assumption+
    done
  have 1: "?sec * 1000000000 + ?nsec = m_interval w" by (rule sdiv_mult_smod_eq)
  have 2: "0 \<le> m_interval w \<longrightarrow> 0 \<le> ?sec \<and> 0 \<le> ?nsec \<and> ?nsec < 1000000000"
    using timeout_valid by blast
  have 3: "evs = concat blocks @ final" using b(1) by simp
  have 4: "list_all (tick_shaped (?sec, ?nsec)) blocks" using b(2) by (simp only: tmo)
  have 5: "blocks = [] \<or> take 1 (hd blocks) = [ListThreads]" using b(4) by simp
  have 6: "\<forall>k < length blocks. running_at world (outside_calls (concat (take k blocks)) + k)"
    using b(6) by (simp add: os)
  have 7: "case out of
         Undefined \<Rightarrow> True
       | Returned s' \<Rightarrow>
           length blocks < fuel
           \<and> \<not> running_at world (outside_calls (concat blocks) + length blocks)
       | Still_running s' \<Rightarrow> length blocks = fuel \<and> final = []"
    using b(7) by (cases out) (simp_all add: os)
  show ?thesis
    by (intro exI [of _ ?sec] exI [of _ ?nsec] exI [of _ blocks] exI [of _ final]
        conjI refl 1 2 3 4 b(3) 5 b(5) 6 7)
qed

text \<open>
  Claim C7. A run of \<open>timerLoop\<close>, however long. It is defined wherever \<open>accept\<close> is.
  Its events are the events of its ticks, one after the other, and at most the final
  deletion of the enumerator. Every tick ends with its only sleep, which asks for the
  seconds and nanoseconds of the interval \<open>start\<close> stored: its quotient and remainder
  by a second, a valid \<open>timespec\<close> that adds up to the interval. A tick that meets the
  end sentinel ends there, with the deletion of the enumerator, having delivered fewer
  than \<open>THREADS_PER_TICK\<close> signals, and exactly then the next tick starts with
  \<open>OS::listThreads\<close>, as the first tick does. \<open>_running\<close> is read once before each tick,
  at the moment the calls to the outside made so far place it, and read true there; the
  loop returns only on reading it false, after the last tick.
\<close>

theorem timerLoop_cadence:
  "((enabled f \<longrightarrow> (\<forall>n. \<forall>t \<in> set (listThreads world n). accept L f t \<noteq> None))
      \<longrightarrow> timerLoop fuel L world f w \<noteq> Undefined)
   \<and> (\<forall>evs. trace_of (timerLoop fuel L world f w) = Some evs \<longrightarrow>
         (\<exists>sec nsec blocks final.
            sec = m_interval w sdiv 1000000000 \<and> nsec = m_interval w smod 1000000000
            \<and> sec * 1000000000 + nsec = m_interval w
            \<and> (0 \<le> m_interval w \<longrightarrow> 0 \<le> sec \<and> 0 \<le> nsec \<and> nsec < 1000000000)
            \<and> evs = concat blocks @ final
            \<and> list_all (tick_shaped (sec, nsec)) blocks
            \<and> successively fresh_after blocks
            \<and> (blocks = [] \<or> take 1 (hd blocks) = [ListThreads])
            \<and> (final = [] \<or> final = [Delete])
            \<and> (\<forall>k < length blocks.
                  running_at world (outside_calls (concat (take k blocks)) + k))
            \<and> (case timerLoop fuel L world f w of
                  Undefined \<Rightarrow> True
                | Returned s' \<Rightarrow>
                    length blocks < fuel
                    \<and> \<not> running_at world (outside_calls (concat blocks) + length blocks)
                | Still_running s' \<Rightarrow> length blocks = fuel \<and> final = [])))"
proof (intro conjI allI impI)
  assume "enabled f \<longrightarrow> (\<forall>n. \<forall>t \<in> set (listThreads world n). accept L f t \<noteq> None)"
  then show "timerLoop fuel L world f w \<noteq> Undefined" by (rule timerLoop_defined)
next
  fix evs
  assume "trace_of (timerLoop fuel L world f w) = Some evs"
  with refl show "\<exists>sec nsec blocks final.
            sec = m_interval w sdiv 1000000000 \<and> nsec = m_interval w smod 1000000000
            \<and> sec * 1000000000 + nsec = m_interval w
            \<and> (0 \<le> m_interval w \<longrightarrow> 0 \<le> sec \<and> 0 \<le> nsec \<and> nsec < 1000000000)
            \<and> evs = concat blocks @ final
            \<and> list_all (tick_shaped (sec, nsec)) blocks
            \<and> successively fresh_after blocks
            \<and> (blocks = [] \<or> take 1 (hd blocks) = [ListThreads])
            \<and> (final = [] \<or> final = [Delete])
            \<and> (\<forall>k < length blocks.
                  running_at world (outside_calls (concat (take k blocks)) + k))
            \<and> (case timerLoop fuel L world f w of
                  Undefined \<Rightarrow> True
                | Returned s' \<Rightarrow>
                    length blocks < fuel
                    \<and> \<not> running_at world (outside_calls (concat blocks) + length blocks)
                | Still_running s' \<Rightarrow> length blocks = fuel \<and> final = [])"
    by (rule timerLoop_blocks)
qed

theorem timerLoop_cadence_witness:
  "\<not> enabled (new_ThreadFilter example_layout)
   \<and> m_interval example_wall_started = 2500000000
   \<and> timerLoop 3 example_layout example_busy_os (new_ThreadFilter example_layout)
        example_wall_started
     = Still_running \<lparr>thread_list = Some [11, 12], clock = 48,
         trace = example_budget_tick @ example_last_tick @ example_budget_tick\<rparr>
   \<and> (\<exists>sec nsec blocks.
         sec = 2 \<and> nsec = 500000000
         \<and> example_budget_tick @ example_last_tick @ example_budget_tick = concat blocks
         \<and> list_all (tick_shaped (sec, nsec)) blocks
         \<and> successively fresh_after blocks
         \<and> take 1 (hd blocks) = [ListThreads]
         \<and> length blocks = 3
         \<and> (\<forall>k < 3. running_at example_busy_os (outside_calls (concat (take k blocks)) + k)))
   \<and> tick_shaped (2, 500000000) example_budget_tick
   \<and> tick_shaped (2, 500000000) example_last_tick
   \<and> fresh_after example_budget_tick example_last_tick
   \<and> fresh_after example_last_tick example_budget_tick
   \<and> timerLoop 3 example_layout example_stopping_os (new_ThreadFilter example_layout)
        example_wall_started
     = Returned \<lparr>thread_list = None, clock = 22, trace = example_budget_tick @ [Delete]\<rparr>
   \<and> \<not> running_at example_stopping_os 21
   \<and> (\<exists>blocks final.
         example_budget_tick @ [Delete] = concat blocks @ final
         \<and> list_all (tick_shaped (2, 500000000)) blocks
         \<and> length blocks < 3
         \<and> \<not> running_at example_stopping_os (outside_calls (concat blocks) + length blocks))"
proof -
  let ?f = "new_ThreadFilter example_layout"
  let ?run = "timerLoop 3 example_layout example_busy_os ?f example_wall_started"
  let ?stop = "timerLoop 3 example_layout example_stopping_os ?f example_wall_started"
  let ?evs = "example_budget_tick @ example_last_tick @ example_budget_tick"
  let ?s = "\<lparr>thread_list = Some [11, 12], clock = 48, trace = ?evs\<rparr>"
  let ?r = "\<lparr>thread_list = None, clock = 22, trace = example_budget_tick @ [Delete]\<rparr>"
  have h0: "\<not> enabled ?f" by code_simp
  have h1: "m_interval example_wall_started = 2500000000" by code_simp
  have h2: "?run = Still_running ?s" by code_simp
  have h3: "?stop = Returned ?r" by code_simp
  have h4: "\<not> running_at example_stopping_os 21" by code_simp
  have s1: "tick_shaped (2, 500000000) example_budget_tick" by code_simp
  have s2: "tick_shaped (2, 500000000) example_last_tick" by code_simp
  have s3: "fresh_after example_budget_tick example_last_tick" by code_simp
  have s4: "fresh_after example_last_tick example_budget_tick" by code_simp
  have t2: "trace_of ?run = Some ?evs" using h2 by simp
  have t3: "trace_of ?stop = Some (example_budget_tick @ [Delete])" using h3 by simp
  from timerLoop_cadence [of ?f example_busy_os example_layout 3 example_wall_started,
      THEN conjunct2, rule_format, OF t2]
  obtain sec nsec blocks final where
    a: "sec = m_interval example_wall_started sdiv 1000000000"
      "nsec = m_interval example_wall_started smod 1000000000"
      "?evs = concat blocks @ final"
      "list_all (tick_shaped (sec, nsec)) blocks"
      "successively fresh_after blocks"
      "blocks = [] \<or> take 1 (hd blocks) = [ListThreads]"
      "case ?run of
         Undefined \<Rightarrow> True
       | Returned s' \<Rightarrow>
           length blocks < 3
           \<and> \<not> running_at example_busy_os (outside_calls (concat blocks) + length blocks)
       | Still_running s' \<Rightarrow> length blocks = 3 \<and> final = []"
      "\<forall>k < length blocks.
         running_at example_busy_os (outside_calls (concat (take k blocks)) + k)"
    apply (elim exE conjE)
    apply (rule that)
    apply assumption+
    done
  have a7: "length blocks = 3" "final = []" using a(7) unfolding h2 by simp_all
  then have "blocks \<noteq> []" by auto
  then have a6: "take 1 (hd blocks) = [ListThreads]" using a(6) by simp
  have a1: "sec = 2" "nsec = 500000000" using a(1,2) unfolding h1 by simp_all
  have a3: "?evs = concat blocks" using a(3) a7(2) by simp
  have a8: "\<forall>k < 3. running_at example_busy_os (outside_calls (concat (take k blocks)) + k)"
    using a(8) a7(1) by simp
  have c1: "\<exists>sec nsec blocks.
         sec = 2 \<and> nsec = 500000000 \<and> ?evs = concat blocks
         \<and> list_all (tick_shaped (sec, nsec)) blocks
         \<and> successively fresh_after blocks
         \<and> take 1 (hd blocks) = [ListThreads]
         \<and> length blocks = 3
         \<and> (\<forall>k < 3. running_at example_busy_os (outside_calls (concat (take k blocks)) + k))"
    by (intro exI [of _ sec] exI [of _ nsec] exI [of _ blocks] conjI a1 a3 a(4) a(5) a6 a7(1) a8)
  from timerLoop_cadence [of ?f example_stopping_os example_layout 3 example_wall_started,
      THEN conjunct2, rule_format, OF t3]
  obtain sec' nsec' blocks' final' where
    b: "sec' = m_interval example_wall_started sdiv 1000000000"
      "nsec' = m_interval example_wall_started smod 1000000000"
      "example_budget_tick @ [Delete] = concat blocks' @ final'"
      "list_all (tick_shaped (sec', nsec')) blocks'"
      "case ?stop of
         Undefined \<Rightarrow> True
       | Returned s' \<Rightarrow>
           length blocks' < 3
           \<and> \<not> running_at example_stopping_os
                 (outside_calls (concat blocks') + length blocks')
       | Still_running s' \<Rightarrow> length blocks' = 3 \<and> final' = []"
    apply (elim exE conjE)
    apply (rule that)
    apply assumption+
    done
  have b1: "sec' = 2" "nsec' = 500000000" using b(1,2) unfolding h1 by simp_all
  have b5: "length blocks' < 3"
    "\<not> running_at example_stopping_os (outside_calls (concat blocks') + length blocks')"
    using b(5) unfolding h3 by simp_all
  have b4: "list_all (tick_shaped (2, 500000000)) blocks'" using b(4) unfolding b1 .
  have c2: "\<exists>blocks final.
         example_budget_tick @ [Delete] = concat blocks @ final
         \<and> list_all (tick_shaped (2, 500000000)) blocks
         \<and> length blocks < 3
         \<and> \<not> running_at example_stopping_os (outside_calls (concat blocks) + length blocks)"
    by (intro exI [of _ blocks'] exI [of _ final'] conjI b(3) b4 b5)
  show ?thesis using h0 h1 h2 c1 s1 s2 s3 s4 h3 h4 c2 by (intro conjI)
qed

lemma while_loop_last:
  "trace_of (while_loop fuel C s) = Some evs \<Longrightarrow>
   trace s = [] \<or> \<not> is_State (last (trace s)) \<Longrightarrow> evs = [] \<or> \<not> is_State (last evs)"
proof (induction fuel arbitrary: s)
  case 0
  then show ?case by simp
next
  case (Suc fuel)
  show ?case
  proof (cases "running_at (os C) (clock s)")
    case False
    then show ?thesis using Suc.prems by (auto split: if_splits)
  next
    case True
    then obtain s' where t: "tick C (s\<lparr>clock := clock s + 1\<rparr>) = Some s'"
      and w: "while_loop (Suc fuel) C s = while_loop fuel C s'"
      using Suc.prems(1) by (cases "tick C (s\<lparr>clock := clock s + 1\<rparr>)") auto
    from tick_block [OF t] obtain b where "trace s' = trace s @ b" "tick_shaped (timeout C) b"
      by auto
    then have "\<not> is_State (last (trace s'))" by (simp add: tick_shaped_def)
    then show ?thesis using Suc.IH [of s'] Suc.prems(1) w by simp
  qed
qed

lemma timerLoop_state_followed:
  assumes "trace_of (timerLoop fuel L world f w) = Some evs"
    and "evs = pre @ State t st # post"
  shows "\<exists>e post'. post = e # post' \<and> follows (loop_ctx L world f w) (State t st) e"
proof -
  let ?C = "loop_ctx L world f w"
  have fo: "successively (follows ?C) evs" using assms(1) by (rule timerLoop_follows)
  have "trace_of (while_loop fuel ?C \<lparr>thread_list = None, clock = 0, trace = []\<rparr>) = Some evs"
    using assms(1) by (simp only: timerLoop_def)
  then have "evs = [] \<or> \<not> is_State (last evs)" by (rule while_loop_last) simp
  then have "post \<noteq> []" unfolding assms(2) by auto
  then obtain e post' where p: "post = e # post'" by (cases post) auto
  have "follows ?C (State t st) e" using fo unfolding assms(2) p by (rule successively_middle)
  then show ?thesis using p by blast
qed

text \<open>
  Claim C4. A \<open>start\<close> that passes the interval check of line 60 sets the
  idle-sampling flag to whether the event name is \<open>EVENT_WALL\<close>. For any other event
  name, no run of \<open>timerLoop\<close> from the state \<open>start\<close> leaves sends a signal right
  after reading a thread's state as \<open>THREAD_SLEEPING\<close>; for \<open>EVENT_WALL\<close>, every such
  reading is followed by the attempt to deliver \<open>SIGVTALRM\<close> to that thread.
\<close>

theorem idle_sampling_by_event_name:
  assumes "0 \<le> arg_interval args"
    and "start DEFAULT_INTERVAL pthread_create_ok args w = (e, w', calls)"
  shows "m_sample_idle_threads w' = (arg_event args = EVENT_WALL)
       \<and> (arg_event args \<noteq> EVENT_WALL \<longrightarrow>
            (\<forall>fuel L world f evs pre t t' sg ok post.
               trace_of (timerLoop fuel L world f w') = Some evs \<longrightarrow>
               evs \<noteq> pre @ State t THREAD_SLEEPING # Signal t' sg ok # post))
       \<and> (arg_event args = EVENT_WALL \<longrightarrow>
            (\<forall>fuel L world f evs pre t post.
               trace_of (timerLoop fuel L world f w') = Some evs
               \<and> evs = pre @ State t THREAD_SLEEPING # post \<longrightarrow>
               (\<exists>ok post'. post = Signal t SIGVTALRM ok # post')))"
proof -
  have flag: "m_sample_idle_threads w' = (arg_event args = EVENT_WALL)"
    using assms by (auto simp add: start_def Let_def installSignalHandler_def split: if_splits)
  have neg: False
    if "arg_event args \<noteq> EVENT_WALL"
      and "trace_of (timerLoop fuel L world f w') = Some evs"
      and "evs = pre @ State t THREAD_SLEEPING # Signal t' sg ok # post"
    for fuel L world f evs pre t t' sg ok post
  proof -
    let ?C = "loop_ctx L world f w'"
    have "successively (follows ?C) evs" using that(2) by (rule timerLoop_follows)
    then have "follows ?C (State t THREAD_SLEEPING) (Signal t' sg ok)"
      unfolding that(3) by (rule successively_middle)
    moreover have "\<not> sample_idle_threads ?C" using flag that(1) by (simp add: loop_ctx_def)
    ultimately show False by (simp add: follows_simps)
  qed
  have pos: "\<exists>ok post'. post = Signal t SIGVTALRM ok # post'"
    if "arg_event args = EVENT_WALL"
      and "trace_of (timerLoop fuel L world f w') = Some evs"
      and "evs = pre @ State t THREAD_SLEEPING # post"
    for fuel L world f evs pre t post
  proof -
    let ?C = "loop_ctx L world f w'"
    from timerLoop_state_followed [OF that(2,3)] obtain e post' where
      p: "post = e # post'" "follows ?C (State t THREAD_SLEEPING) e" by blast
    have "sample_idle_threads ?C" using flag that(1) by (simp add: loop_ctx_def)
    then have "\<exists>ok. e = Signal t SIGVTALRM ok" using p(2) by (simp add: follows_simps)
    then show ?thesis using p(1) by blast
  qed
  have 2: "arg_event args \<noteq> EVENT_WALL \<longrightarrow>
            (\<forall>fuel L world f evs pre t t' sg ok post.
               trace_of (timerLoop fuel L world f w') = Some evs \<longrightarrow>
               evs \<noteq> pre @ State t THREAD_SLEEPING # Signal t' sg ok # post)"
    using neg by (intro impI allI notI) 
  have 3: "arg_event args = EVENT_WALL \<longrightarrow>
            (\<forall>fuel L world f evs pre t post.
               trace_of (timerLoop fuel L world f w') = Some evs
               \<and> evs = pre @ State t THREAD_SLEEPING # post \<longrightarrow>
               (\<exists>ok post'. post = Signal t SIGVTALRM ok # post'))"
    using pos by (intro impI allI) (elim conjE)
  show ?thesis using flag 2 3 by (intro conjI)
qed

theorem idle_sampling_by_event_name_witness:
  "(0 :: int) \<le> arg_interval \<lparr>arg_interval = 0, arg_event = ''cpu''\<rparr>
   \<and> start 10000000 True \<lparr>arg_interval = 0, arg_event = ''cpu''\<rparr> example_clock
       = (OK, example_started,
          [InstallSignalHandler SIGVTALRM signalHandler, InstallSignalHandler SIGPROF signalHandler,
           InstallSignalHandler WAKEUP_SIGNAL wakeupHandler, PthreadCreate True])
   \<and> \<not> m_sample_idle_threads example_started
   \<and> arg_event \<lparr>arg_interval = 0, arg_event = ''cpu''\<rparr> \<noteq> EVENT_WALL
   \<and> trace_of (timerLoop 1 example_layout example_os (new_ThreadFilter example_layout)
                  example_started)
       = Some ([ListThreads] @ example_cpu_events @ [Sleep 0 10000000])
   \<and> \<not> (\<exists>pre t t' sg ok post.
           [ListThreads] @ example_cpu_events @ [Sleep 0 10000000]
             = pre @ State t THREAD_SLEEPING # Signal t' sg ok # post)
   \<and> (0 :: int) \<le> arg_interval \<lparr>arg_interval = 2500000000, arg_event = ''wall''\<rparr>
   \<and> start 10000000 True \<lparr>arg_interval = 2500000000, arg_event = ''wall''\<rparr> example_clock
       = (OK, example_wall_started,
          [InstallSignalHandler SIGVTALRM signalHandler, InstallSignalHandler SIGPROF signalHandler,
           InstallSignalHandler WAKEUP_SIGNAL wakeupHandler, PthreadCreate True])
   \<and> m_sample_idle_threads example_wall_started
   \<and> arg_event \<lparr>arg_interval = 2500000000, arg_event = ''wall''\<rparr> = EVENT_WALL
   \<and> trace_of (timerLoop 1 example_layout example_os (new_ThreadFilter example_layout)
                  example_wall_started)
       = Some ([ListThreads] @ example_wall_events @ [Sleep 2 500000000])
   \<and> [ListThreads] @ example_wall_events @ [Sleep 2 500000000]
       = [ListThreads, Next 1, Next 2, State 2 THREAD_RUNNING, Signal 2 SIGPROF True, Next 3]
         @ State 3 THREAD_SLEEPING
         # Signal 3 SIGVTALRM True
         # [Next 4, State 4 THREAD_RUNNING, Signal 4 SIGPROF False, Next 5,
            State 5 THREAD_OTHER, Next (- 1), Delete, Sleep 2 500000000]"
proof -
  let ?cpu = "\<lparr>arg_interval = 0, arg_event = ''cpu''\<rparr>"
  let ?wall = "\<lparr>arg_interval = 2500000000, arg_event = ''wall''\<rparr>"
  let ?calls = "[InstallSignalHandler SIGVTALRM signalHandler,
                 InstallSignalHandler SIGPROF signalHandler,
                 InstallSignalHandler WAKEUP_SIGNAL wakeupHandler, PthreadCreate True]"
  let ?f = "new_ThreadFilter example_layout"
  let ?ec = "[ListThreads] @ example_cpu_events @ [Sleep 0 10000000]"
  let ?ew = "[ListThreads] @ example_wall_events @ [Sleep 2 500000000]"
  have h1: "0 \<le> arg_interval ?cpu" by simp
  have "fst (start 10000000 True ?cpu example_clock) = OK"
    "snd (snd (start 10000000 True ?cpu example_clock)) = ?calls"
    by (simp_all add: start_def Let_def)
  then have h2: "start 10000000 True ?cpu example_clock = (OK, example_started, ?calls)"
    unfolding example_started_def by (metis prod.collapse)
  have h3: "arg_event ?cpu \<noteq> EVENT_WALL" by (simp add: EVENT_WALL_def)
  have h4: "trace_of (timerLoop 1 example_layout example_os ?f example_started) = Some ?ec"
    by code_simp
  have g1: "0 \<le> arg_interval ?wall" by simp
  have "fst (start 10000000 True ?wall example_clock) = OK"
    "snd (snd (start 10000000 True ?wall example_clock)) = ?calls"
    by (simp_all add: start_def Let_def)
  then have g2: "start 10000000 True ?wall example_clock = (OK, example_wall_started, ?calls)"
    unfolding example_wall_started_def by (metis prod.collapse)
  have g3: "arg_event ?wall = EVENT_WALL" by (simp add: EVENT_WALL_def)
  have g4: "trace_of (timerLoop 1 example_layout example_os ?f example_wall_started) = Some ?ew"
    by code_simp
  note tc = idle_sampling_by_event_name [OF h1 h2]
  note tw = idle_sampling_by_event_name [OF g1 g2]
  have c1: "\<not> m_sample_idle_threads example_started" using tc h3 by blast
  have c2: "\<not> (\<exists>pre t t' sg ok post.
              ?ec = pre @ State t THREAD_SLEEPING # Signal t' sg ok # post)"
    using tc h3 h4 by blast
  have w1: "m_sample_idle_threads example_wall_started" using tw g3 by blast
  let ?pre = "[ListThreads, Next 1, Next 2, State 2 THREAD_RUNNING, Signal 2 SIGPROF True, Next 3]"
  let ?post = "Signal 3 SIGVTALRM True
         # [Next 4, State 4 THREAD_RUNNING, Signal 4 SIGPROF False, Next 5,
            State 5 THREAD_OTHER, Next (- 1), Delete, Sleep 2 500000000]"
  have d: "?ew = ?pre @ State 3 THREAD_SLEEPING # ?post"
    by (simp add: example_wall_events_def)
  have "\<exists>ok post'. ?post = Signal 3 SIGVTALRM ok # post'"
    using tw [THEN conjunct2, THEN conjunct2, rule_format, OF g3, of 1 example_layout example_os
        ?f ?ew ?pre 3 ?post] g4 d by blast
  show ?thesis using h1 h2 c1 h3 h4 c2 g1 g2 w1 g3 g4 d by (intro conjI)
qed

end
